theory Spec2Isabelle
  imports Main "HOL-Library.Word"
begin

section \<open>Apte::FastVector: the embedding\<close>

text \<open>
  \<^verbatim>\<open>FastVector<T>\<close> (src/FastVector.h) owns one raw block obtained from the aligned
  \<^verbatim>\<open>::operator new\<close>, constructs elements into it with placement new and destroys them
  with explicit destructor calls. The embedding keeps that split: a heap of blocks whose
  slots are either raw memory or a live element, and the three fields of the class.

  \<^item> \<^verbatim>\<open>size_t\<close> is a 64-bit word (the x64 targets of the project); \<open>+\<close> and \<open>*\<close> wrap.
  \<^item> A pointer \<^verbatim>\<open>T*\<close> is \<open>None\<close> (\<^verbatim>\<open>nullptr\<close>) or the address of a block; \<^verbatim>\<open>p + i\<close>
    and \<^verbatim>\<open>p[i]\<close> are slot \<open>i\<close> of the block at \<open>p\<close>.
  \<^item> The element type is a parameter: its \<^verbatim>\<open>sizeof\<close>, its \<^verbatim>\<open>alignof\<close>, whether
    \<^verbatim>\<open>std::is_nothrow_move_constructible_v<T>\<close> holds, and the state a \<^verbatim>\<open>T\<close> is left in
    once it has been moved from. Copy and move construction yield an equal value and do
    not throw.
  \<^item> A reference parameter (\<^verbatim>\<open>const T&\<close>, \<^verbatim>\<open>T&&\<close>) is a reference in the embedding too: it
    names an object of the caller outside the heap, or an element of a block, and is read
    where the source reads it.
  \<^item> A call has one of three outcomes: it returns, it fails (an exception or a failed
    \<^verbatim>\<open>assert\<close>) leaving a state behind, or its behaviour is undefined in C++ (access
    through \<^verbatim>\<open>nullptr\<close>, outside the block, to a slot holding no live element, or release
    of a pointer that is not a block).
\<close>

type_synonym size_t = "64 word"
type_synonym addr = nat

record 'a elem_type =
  sizeof :: size_t
  alignof :: size_t
  nothrow_move :: bool
  moved_from :: "'a \<Rightarrow> 'a"

datatype failure =
    Out_of_range     \<comment> \<open>\<^verbatim>\<open>std::out_of_range\<close>, thrown by \<^verbatim>\<open>pop_back\<close>\<close>
  | Bad_alloc        \<comment> \<open>\<^verbatim>\<open>std::bad_alloc\<close>, thrown by \<^verbatim>\<open>::operator new\<close>\<close>
  | Assert_failed    \<comment> \<open>\<^verbatim>\<open>assert(index < m_Size)\<close> in \<^verbatim>\<open>operator[]\<close>\<close>

datatype ('s, 'r) outcome = Returns 'r | Fails failure 's | Undefined

subsection \<open>The heap\<close>

record 'a block =
  blk_bytes :: size_t
  blk_align :: size_t
  blk_slots :: "'a option list"

text \<open>
  \<open>avail\<close> is the number of bytes \<^verbatim>\<open>::operator new\<close> can still hand out; \<open>released\<close>
  logs every \<^verbatim>\<open>::operator delete\<close> of a block: the pointer, the (bytes, alignment) pair
  passed to it and the pair the block was acquired with.
\<close>

record 'a heap =
  blocks :: "addr \<Rightarrow> 'a block option"
  next_addr :: addr
  avail :: nat
  released :: "(addr \<times> (size_t \<times> size_t) \<times> (size_t \<times> size_t)) list"

text \<open>\<^verbatim>\<open>static T* allocate(size_t n)\<close>: \<^verbatim>\<open>::operator new(n * sizeof(T), std::align_val_t(alignof(T)))\<close>.
  The product wraps; the block has room for as many elements as its bytes hold.\<close>

definition allocate :: "'a elem_type \<Rightarrow> size_t \<Rightarrow> 'a heap \<Rightarrow> ('a heap, addr option \<times> 'a heap) outcome" where
  "allocate T n h =
     (let bytes = n * sizeof T in
      if unat bytes \<le> avail h
      then Returns (Some (next_addr h),
             h\<lparr>blocks := (blocks h)(next_addr h \<mapsto>
                   \<lparr>blk_bytes = bytes, blk_align = alignof T,
                    blk_slots = replicate (unat bytes div unat (sizeof T)) None\<rparr>),
               next_addr := Suc (next_addr h),
               avail := avail h - unat bytes\<rparr>)
      else Fails Bad_alloc h)"

text \<open>\<^verbatim>\<open>static void deallocate(T* ptr, size_t n)\<close>:
  \<^verbatim>\<open>::operator delete(ptr, n * sizeof(T), std::align_val_t(alignof(T)))\<close>. Deleting
  \<^verbatim>\<open>nullptr\<close> does nothing. C++ leaves a release with a size other than the acquired one
  undefined; the embedding releases the block whatever size is passed and records it: the
  log keeps what was passed next to what the block was acquired with.\<close>

definition deallocate :: "'a elem_type \<Rightarrow> addr option \<Rightarrow> size_t \<Rightarrow> 'a heap \<Rightarrow> 'a heap option" where
  "deallocate T ptr n h =
     (case ptr of
        None \<Rightarrow> Some h
      | Some p \<Rightarrow>
          (case blocks h p of
             None \<Rightarrow> None
           | Some b \<Rightarrow>
               Some (h\<lparr>blocks := (blocks h)(p := None),
                       avail := avail h + unat (blk_bytes b),
                       released := released h @
                         [(p, (n * sizeof T, alignof T), (blk_bytes b, blk_align b))]\<rparr>)))"

text \<open>A release round-trips when the pair passed equals the pair of the acquisition.\<close>

definition round_trips :: "addr \<times> (size_t \<times> size_t) \<times> (size_t \<times> size_t) \<Rightarrow> bool" where
  "round_trips e = (fst (snd e) = snd (snd e))"

text \<open>\<^verbatim>\<open>new (p + i) T(x)\<close>: placement new into slot \<open>i\<close>.\<close>

definition construct_at :: "addr option \<Rightarrow> nat \<Rightarrow> 'a \<Rightarrow> 'a heap \<Rightarrow> 'a heap option" where
  "construct_at ptr i x h =
     (case ptr of
        None \<Rightarrow> None
      | Some p \<Rightarrow>
          (case blocks h p of
             None \<Rightarrow> None
           | Some b \<Rightarrow>
               if i < length (blk_slots b)
               then Some (h\<lparr>blocks := (blocks h)(p \<mapsto> b\<lparr>blk_slots := (blk_slots b)[i := Some x]\<rparr>)\<rparr>)
               else None))"

text \<open>Reading \<^verbatim>\<open>p[i]\<close>: the slot must hold a live element.\<close>

definition read_at :: "addr option \<Rightarrow> nat \<Rightarrow> 'a heap \<Rightarrow> 'a option" where
  "read_at ptr i h =
     (case ptr of
        None \<Rightarrow> None
      | Some p \<Rightarrow>
          (case blocks h p of
             None \<Rightarrow> None
           | Some b \<Rightarrow> if i < length (blk_slots b) then blk_slots b ! i else None))"

text \<open>Assigning to the live element \<^verbatim>\<open>p[i]\<close> through a reference.\<close>

definition assign_at :: "addr option \<Rightarrow> nat \<Rightarrow> 'a \<Rightarrow> 'a heap \<Rightarrow> 'a heap option" where
  "assign_at ptr i x h =
     (case read_at ptr i h of
        None \<Rightarrow> None
      | Some _ \<Rightarrow> construct_at ptr i x h)"

text \<open>\<^verbatim>\<open>p[i].~T()\<close>: the element's lifetime ends, the slot is raw memory again.\<close>

definition destroy_at :: "addr option \<Rightarrow> nat \<Rightarrow> 'a heap \<Rightarrow> 'a heap option" where
  "destroy_at ptr i h =
     (case ptr of
        None \<Rightarrow> None
      | Some p \<Rightarrow>
          (case blocks h p of
             None \<Rightarrow> None
           | Some b \<Rightarrow>
               if i < length (blk_slots b) \<and> blk_slots b ! i \<noteq> None
               then Some (h\<lparr>blocks := (blocks h)(p \<mapsto> b\<lparr>blk_slots := (blk_slots b)[i := None]\<rparr>)\<rparr>)
               else None))"

text \<open>\<^verbatim>\<open>new (dst + i) T(std::move(src[j]))\<close>: the new element takes the value, the old one
  stays alive in its moved-from state.\<close>

definition move_construct_at :: "'a elem_type \<Rightarrow> addr option \<Rightarrow> nat \<Rightarrow> addr option \<Rightarrow> nat \<Rightarrow> 'a heap \<Rightarrow> 'a heap option" where
  "move_construct_at T dst i src j h =
     (case read_at src j h of
        None \<Rightarrow> None
      | Some x \<Rightarrow>
          (case construct_at dst i x h of
             None \<Rightarrow> None
           | Some h' \<Rightarrow> assign_at src j (moved_from T x) h'))"

text \<open>\<^verbatim>\<open>new (dst + i) T(src[j])\<close>.\<close>

definition copy_construct_at :: "addr option \<Rightarrow> nat \<Rightarrow> addr option \<Rightarrow> nat \<Rightarrow> 'a heap \<Rightarrow> 'a heap option" where
  "copy_construct_at dst i src j h =
     (case read_at src j h of
        None \<Rightarrow> None
      | Some x \<Rightarrow> construct_at dst i x h)"

text \<open>What a reference \<^verbatim>\<open>const T&\<close> or \<^verbatim>\<open>T&&\<close> can name: an object of the caller that lives
  outside the heap (a local or a temporary, given by its value), or the element \<^verbatim>\<open>p[j]\<close> of
  a block, as in \<^verbatim>\<open>v.push_back(w[j])\<close>.\<close>

datatype 'a arg = Object 'a | Element addr nat

text \<open>\<^verbatim>\<open>new (dst + i) T(value)\<close> for a reference \<^verbatim>\<open>value\<close>: the referent is read when the
  element is constructed.\<close>

definition copy_construct_from :: "addr option \<Rightarrow> nat \<Rightarrow> 'a arg \<Rightarrow> 'a heap \<Rightarrow> 'a heap option" where
  "copy_construct_from dst i value h =
     (case value of
        Object x \<Rightarrow> construct_at dst i x h
      | Element p j \<Rightarrow> copy_construct_at dst i (Some p) j h)"

text \<open>\<^verbatim>\<open>new (dst + i) T(std::move(value))\<close>: an element that is moved from stays in its block
  in its moved-from state; a moved-from object of the caller is outside the heap.\<close>

definition move_construct_from :: "'a elem_type \<Rightarrow> addr option \<Rightarrow> nat \<Rightarrow> 'a arg \<Rightarrow> 'a heap \<Rightarrow> 'a heap option" where
  "move_construct_from T dst i value h =
     (case value of
        Object x \<Rightarrow> construct_at dst i x h
      | Element p j \<Rightarrow> move_construct_at T dst i (Some p) j h)"

subsection \<open>The class\<close>

record FastVector =
  m_Data :: "addr option"
  m_Size :: size_t
  m_Capacity :: size_t

definition initialCapacity :: size_t where
  "initialCapacity = 4"

text \<open>\<^verbatim>\<open>FastVector() noexcept\<close>.\<close>

definition FastVector_default :: FastVector where
  "FastVector_default = \<lparr>m_Data = None, m_Size = 0, m_Capacity = 0\<rparr>"

text \<open>The loops \<^verbatim>\<open>for (size_t i = 0; i < m_Size; i++)\<close>, started at \<open>i\<close>. The counter stays
  below \<open>m_Size\<close>, so \<^verbatim>\<open>i++\<close> never wraps and \<open>i\<close> is a natural number.\<close>

function nuke_loop :: "addr option \<Rightarrow> nat \<Rightarrow> nat \<Rightarrow> 'a heap \<Rightarrow> 'a heap option" where
  "nuke_loop p i n h =
     (if i < n
      then (case destroy_at p i h of None \<Rightarrow> None | Some h' \<Rightarrow> nuke_loop p (Suc i) n h')
      else Some h)"
  by pat_completeness auto
termination
  by (relation "measure (\<lambda>(p, i, n, h). n - i)") auto

function copy_loop :: "addr option \<Rightarrow> addr option \<Rightarrow> nat \<Rightarrow> nat \<Rightarrow> 'a heap \<Rightarrow> 'a heap option" where
  "copy_loop dst src i n h =
     (if i < n
      then (case copy_construct_at dst i src i h of
              None \<Rightarrow> None
            | Some h' \<Rightarrow> copy_loop dst src (Suc i) n h')
      else Some h)"
  by pat_completeness auto
termination
  by (relation "measure (\<lambda>(dst, src, i, n, h). n - i)") auto

function move_loop :: "'a elem_type \<Rightarrow> addr option \<Rightarrow> addr option \<Rightarrow> nat \<Rightarrow> nat \<Rightarrow> 'a heap \<Rightarrow> 'a heap option" where
  "move_loop T dst src i n h =
     (if i < n
      then (case move_construct_at T dst i src i h of
              None \<Rightarrow> None
            | Some h' \<Rightarrow> move_loop T dst src (Suc i) n h')
      else Some h)"
  by pat_completeness auto
termination
  by (relation "measure (\<lambda>(T, dst, src, i, n, h). n - i)") auto

declare nuke_loop.simps [simp del] copy_loop.simps [simp del] move_loop.simps [simp del]

text \<open>\<^verbatim>\<open>void nuke()\<close>: destroys every element. It does not touch \<open>m_Size\<close>.\<close>

definition nuke :: "FastVector \<Rightarrow> 'a heap \<Rightarrow> 'a heap option" where
  "nuke v h = nuke_loop (m_Data v) 0 (unat (m_Size v)) h"

text \<open>\<^verbatim>\<open>void grow()\<close>.\<close>

definition grow :: "'a elem_type \<Rightarrow> FastVector \<Rightarrow> 'a heap \<Rightarrow> (FastVector \<times> 'a heap, FastVector \<times> 'a heap) outcome" where
  "grow T v h =
     (let newCapacity = (if m_Capacity v > 0 then m_Capacity v * 2 else initialCapacity) in
      case allocate T newCapacity h of
        Fails e h0 \<Rightarrow> Fails e (v, h0)
      | Undefined \<Rightarrow> Undefined
      | Returns (newData, h1) \<Rightarrow>
          (case (if nothrow_move T
                 then move_loop T newData (m_Data v) 0 (unat (m_Size v)) h1
                 else copy_loop newData (m_Data v) 0 (unat (m_Size v)) h1) of
             None \<Rightarrow> Undefined
           | Some h2 \<Rightarrow>
               (case nuke v h2 of
                  None \<Rightarrow> Undefined
                | Some h3 \<Rightarrow>
                    (case deallocate T (m_Data v) (m_Capacity v) h3 of
                       None \<Rightarrow> Undefined
                     | Some h4 \<Rightarrow>
                         Returns (v\<lparr>m_Data := newData, m_Capacity := newCapacity\<rparr>, h4)))))"

text \<open>\<^verbatim>\<open>void push_back(const T& value)\<close>. \<^verbatim>\<open>value\<close> is read on line 65, after \<^verbatim>\<open>grow()\<close>
  has run.\<close>

definition push_back :: "'a elem_type \<Rightarrow> 'a arg \<Rightarrow> FastVector \<Rightarrow> 'a heap \<Rightarrow> (FastVector \<times> 'a heap, FastVector \<times> 'a heap) outcome" where
  "push_back T value v h =
     (case (if m_Size v = m_Capacity v then grow T v h else Returns (v, h)) of
        Fails e s \<Rightarrow> Fails e s
      | Undefined \<Rightarrow> Undefined
      | Returns (v1, h1) \<Rightarrow>
          (case copy_construct_from (m_Data v1) (unat (m_Size v1)) value h1 of
             None \<Rightarrow> Undefined
           | Some h2 \<Rightarrow> Returns (v1\<lparr>m_Size := m_Size v1 + 1\<rparr>, h2)))"

text \<open>\<^verbatim>\<open>void push_back(T&& value)\<close>: the same steps, with the element move-constructed from
  \<^verbatim>\<open>value\<close> on line 79.\<close>

definition push_back_rvalue :: "'a elem_type \<Rightarrow> 'a arg \<Rightarrow> FastVector \<Rightarrow> 'a heap \<Rightarrow> (FastVector \<times> 'a heap, FastVector \<times> 'a heap) outcome" where
  "push_back_rvalue T value v h =
     (case (if m_Size v = m_Capacity v then grow T v h else Returns (v, h)) of
        Fails e s \<Rightarrow> Fails e s
      | Undefined \<Rightarrow> Undefined
      | Returns (v1, h1) \<Rightarrow>
          (case move_construct_from T (m_Data v1) (unat (m_Size v1)) value h1 of
             None \<Rightarrow> Undefined
           | Some h2 \<Rightarrow> Returns (v1\<lparr>m_Size := m_Size v1 + 1\<rparr>, h2)))"

text \<open>\<^verbatim>\<open>void pop_back()\<close>.\<close>

definition pop_back :: "FastVector \<Rightarrow> 'a heap \<Rightarrow> (FastVector \<times> 'a heap, FastVector \<times> 'a heap) outcome" where
  "pop_back v h =
     (if m_Size v = 0 then Fails Out_of_range (v, h)
      else
        (let v1 = v\<lparr>m_Size := m_Size v - 1\<rparr> in
         case destroy_at (m_Data v1) (unat (m_Size v1)) h of
           None \<Rightarrow> Undefined
         | Some h1 \<Rightarrow> Returns (v1, h1)))"

text \<open>\<^verbatim>\<open>void clear()\<close>: only \<^verbatim>\<open>nuke()\<close>.\<close>

definition clear :: "FastVector \<Rightarrow> 'a heap \<Rightarrow> (FastVector \<times> 'a heap, FastVector \<times> 'a heap) outcome" where
  "clear v h = (case nuke v h of None \<Rightarrow> Undefined | Some h1 \<Rightarrow> Returns (v, h1))"

text \<open>\<^verbatim>\<open>size_t size() const noexcept\<close> and \<^verbatim>\<open>bool empty() const noexcept\<close>.\<close>

definition size_of_vector :: "FastVector \<Rightarrow> size_t" where
  "size_of_vector v = m_Size v"

definition empty :: "FastVector \<Rightarrow> bool" where
  "empty v = (m_Size v = 0)"

text \<open>\<^verbatim>\<open>const T& operator[](size_t index) const noexcept\<close>, read.\<close>

definition subscript :: "FastVector \<Rightarrow> 'a heap \<Rightarrow> size_t \<Rightarrow> (FastVector \<times> 'a heap, 'a) outcome" where
  "subscript v h index =
     (if index < m_Size v
      then (case read_at (m_Data v) (unat index) h of None \<Rightarrow> Undefined | Some x \<Rightarrow> Returns x)
      else Fails Assert_failed (v, h))"

text \<open>\<^verbatim>\<open>T& operator[](size_t index) noexcept\<close>, assigned through: \<^verbatim>\<open>v[index] = x\<close>.\<close>

definition subscript_assign :: "size_t \<Rightarrow> 'a \<Rightarrow> FastVector \<Rightarrow> 'a heap \<Rightarrow> (FastVector \<times> 'a heap, FastVector \<times> 'a heap) outcome" where
  "subscript_assign index x v h =
     (if index < m_Size v
      then (case assign_at (m_Data v) (unat index) x h of
              None \<Rightarrow> Undefined
            | Some h1 \<Rightarrow> Returns (v, h1))
      else Fails Assert_failed (v, h))"

text \<open>\<^verbatim>\<open>FastVector(const FastVector& other)\<close>: the new object and the heap.\<close>

definition copy_construct :: "'a elem_type \<Rightarrow> FastVector \<Rightarrow> 'a heap \<Rightarrow> ('a heap, FastVector \<times> 'a heap) outcome" where
  "copy_construct T other h =
     (case allocate T (m_Capacity other) h of
        Fails e h0 \<Rightarrow> Fails e h0
      | Undefined \<Rightarrow> Undefined
      | Returns (newData, h1) \<Rightarrow>
          (case copy_loop newData (m_Data other) 0 (unat (m_Size other)) h1 of
             None \<Rightarrow> Undefined
           | Some h2 \<Rightarrow>
               Returns (\<lparr>m_Data = newData, m_Size = m_Size other, m_Capacity = m_Capacity other\<rparr>, h2)))"

text \<open>\<^verbatim>\<open>FastVector(FastVector&& other) noexcept\<close>: the new object and what is left of
  \<open>other\<close>.\<close>

definition move_construct :: "FastVector \<Rightarrow> FastVector \<times> FastVector" where
  "move_construct other =
     (\<lparr>m_Data = m_Data other, m_Size = m_Size other, m_Capacity = m_Capacity other\<rparr>,
      other\<lparr>m_Data := None, m_Size := 0, m_Capacity := 0\<rparr>)"

text \<open>\<^verbatim>\<open>~FastVector()\<close>.\<close>

definition destructor :: "'a elem_type \<Rightarrow> FastVector \<Rightarrow> 'a heap \<Rightarrow> 'a heap option" where
  "destructor T v h =
     (case nuke v h of
        None \<Rightarrow> None
      | Some h1 \<Rightarrow> if m_Data v \<noteq> None then deallocate T (m_Data v) (m_Capacity v) h1 else Some h1)"

text \<open>
  \<^verbatim>\<open>void reserve(size_t p_Capacity)\<close>. The loop body is
  \<^verbatim>\<open>new (newData + i) T(std::move(m_Size[i]))\<close>: it subscripts the counter \<open>m_Size\<close>, a
  \<^verbatim>\<open>size_t\<close>, not \<open>m_Data\<close>. The expression has no type in C++, so the member cannot be
  instantiated at all; the embedding gives the call no defined result from the point
  where the body would be evaluated.
\<close>

definition reserve_loop :: "addr option \<Rightarrow> size_t \<Rightarrow> nat \<Rightarrow> nat \<Rightarrow> 'a heap \<Rightarrow> 'a heap option" where
  "reserve_loop newData msize i n h = (if i < n then None else Some h)"

definition reserve :: "'a elem_type \<Rightarrow> size_t \<Rightarrow> FastVector \<Rightarrow> 'a heap \<Rightarrow> (FastVector \<times> 'a heap, FastVector \<times> 'a heap) outcome" where
  "reserve T p_Capacity v h =
     (if p_Capacity \<le> m_Capacity v then Returns (v, h)
      else
        (case allocate T p_Capacity h of
           Fails e h0 \<Rightarrow> Fails e (v, h0)
         | Undefined \<Rightarrow> Undefined
         | Returns (newData, h1) \<Rightarrow>
             (case reserve_loop newData (m_Size v) 0 (unat (m_Size v)) h1 of
                None \<Rightarrow> Undefined
              | Some h2 \<Rightarrow>
                  (case nuke v h2 of
                     None \<Rightarrow> Undefined
                   | Some h3 \<Rightarrow>
                       (case (if m_Data v \<noteq> None
                              then deallocate T (m_Data v) (m_Capacity v) h3 else Some h3) of
                          None \<Rightarrow> Undefined
                        | Some h4 \<Rightarrow>
                            Returns (v\<lparr>m_Data := newData, m_Capacity := p_Capacity\<rparr>, h4))))))"

subsection \<open>Objects with an identity: move assignment\<close>

text \<open>
  \<^verbatim>\<open>operator=(FastVector&& other)\<close> compares \<^verbatim>\<open>this\<close> with \<^verbatim>\<open>&other\<close>, so the vectors
  live in a store indexed by object identity.
\<close>

record 'a world =
  objects :: "nat \<Rightarrow> FastVector option"
  mem :: "'a heap"

definition move_assign :: "'a elem_type \<Rightarrow> nat \<Rightarrow> nat \<Rightarrow> 'a world \<Rightarrow> ('a world, 'a world) outcome" where
  "move_assign T this other w =
     (case (objects w this, objects w other) of
        (Some a, Some b) \<Rightarrow>
          if this \<noteq> other
          then
            (case nuke a (mem w) of
               None \<Rightarrow> Undefined
             | Some h1 \<Rightarrow>
                 (case (if m_Data a \<noteq> None
                        then deallocate T (m_Data a) (m_Size a) h1 else Some h1) of
                    None \<Rightarrow> Undefined
                  | Some h2 \<Rightarrow>
                      Returns (w\<lparr>objects := (objects w)
                                  (this \<mapsto> a\<lparr>m_Data := m_Data b, m_Size := m_Size b,
                                              m_Capacity := m_Capacity b\<rparr>,
                                   other \<mapsto> b\<lparr>m_Data := None, m_Size := 0, m_Capacity := 0\<rparr>),
                                mem := h2\<rparr>)))
          else Returns w
      | _ \<Rightarrow> Undefined)"

subsection \<open>A driver\<close>

text \<open>One call of \<^verbatim>\<open>push_back\<close>: the overload and the argument.\<close>

datatype 'a call = Push_lvalue "'a arg" | Push_rvalue "'a arg"

fun push_call :: "'a elem_type \<Rightarrow> 'a call \<Rightarrow> FastVector \<Rightarrow> 'a heap \<Rightarrow> (FastVector \<times> 'a heap, FastVector \<times> 'a heap) outcome" where
  "push_call T (Push_lvalue a) v h = push_back T a v h"
| "push_call T (Push_rvalue a) v h = push_back_rvalue T a v h"

fun arg_of :: "'a call \<Rightarrow> 'a arg" where
  "arg_of (Push_lvalue a) = a"
| "arg_of (Push_rvalue a) = a"

text \<open>The loop of src/src/Main.cpp, \<^verbatim>\<open>for (...) fv.push_back(i);\<close>, over a list of calls. It
  stops at the first call that does not return.\<close>

fun push_back_all :: "'a elem_type \<Rightarrow> 'a call list \<Rightarrow> FastVector \<Rightarrow> 'a heap \<Rightarrow> (FastVector \<times> 'a heap, FastVector \<times> 'a heap) outcome" where
  "push_back_all T [] v h = Returns (v, h)"
| "push_back_all T (c # cs) v h =
     (case push_call T c v h of
        Returns (v1, h1) \<Rightarrow> push_back_all T cs v1 h1
      | Fails e s \<Rightarrow> Fails e s
      | Undefined \<Rightarrow> Undefined)"

text \<open>The same loop, recording \<open>m_Capacity\<close> before the first call and after every call that
  returns.\<close>

fun capacities :: "'a elem_type \<Rightarrow> 'a call list \<Rightarrow> FastVector \<Rightarrow> 'a heap \<Rightarrow> size_t list" where
  "capacities T [] v h = [m_Capacity v]"
| "capacities T (c # cs) v h =
     m_Capacity v #
       (case push_call T c v h of
          Returns (v1, h1) \<Rightarrow> capacities T cs v1 h1
        | Fails e s \<Rightarrow> []
        | Undefined \<Rightarrow> [])"

text \<open>The calls that change one vector, as a value, so that a statement can range over
  them. \<^verbatim>\<open>push_back(const T&)\<close> with any argument, \<^verbatim>\<open>push_back(T&&)\<close> with a temporary.\<close>

datatype 'a mutation =
  Push_back "'a arg" | Push_back_rvalue 'a | Pop_back | Clear | Assign size_t 'a

fun mutate :: "'a elem_type \<Rightarrow> 'a mutation \<Rightarrow> FastVector \<Rightarrow> 'a heap \<Rightarrow> (FastVector \<times> 'a heap, FastVector \<times> 'a heap) outcome" where
  "mutate T (Push_back a) v h = push_back T a v h"
| "mutate T (Push_back_rvalue x) v h = push_back_rvalue T (Object x) v h"
| "mutate T Pop_back v h = pop_back v h"
| "mutate T Clear v h = clear v h"
| "mutate T (Assign i x) v h = subscript_assign i x v h"

section \<open>Vocabulary of the statements\<close>

text \<open>
  \<open>represents T v h xs\<close>: the vector \<open>v\<close> is in the state the class means to keep, and holds
  the values \<open>xs\<close>. Its size is the length of \<open>xs\<close> and does not exceed its capacity; without
  storage its capacity is 0; with storage, the block was acquired for exactly
  \<open>m_Capacity\<close> elements of \<open>T\<close> (no wrap-around in the byte count), and its first slots
  hold the live elements \<open>xs\<close>.
\<close>

definition represents :: "'a elem_type \<Rightarrow> FastVector \<Rightarrow> 'a heap \<Rightarrow> 'a list \<Rightarrow> bool" where
  "represents T v h xs \<longleftrightarrow>
     unat (m_Size v) = length xs \<and> m_Size v \<le> m_Capacity v \<and>
     (case m_Data v of
        None \<Rightarrow> m_Capacity v = 0
      | Some p \<Rightarrow>
          p < next_addr h \<and>
          (case blocks h p of
             None \<Rightarrow> False
           | Some b \<Rightarrow>
               blk_bytes b = m_Capacity v * sizeof T \<and> blk_align b = alignof T \<and>
               unat (m_Capacity v) * unat (sizeof T) < 2 ^ 64 \<and>
               length (blk_slots b) = unat (m_Capacity v) \<and>
               take (length xs) (blk_slots b) = map Some xs))"

text \<open>
  The value a reference names in a heap. An argument is \<open>valid_arg\<close> for a call on \<open>v\<close>
  when it names an object that exists: an object of the caller, or a slot of a block
  allocated so far, which in the vector's own block means an index below its size. It is
  \<open>foreign\<close> when that block is not the vector's own. A call is \<open>admissible\<close> when its
  argument is valid and, where the call moves from it, foreign: moving from an element of
  the vector itself changes that element. \<open>argument_values T cs xs v h\<close>: in the run of
  the calls \<open>cs\<close> from \<open>(v, h)\<close>, each call is admissible and its argument names the value
  \<open>xs ! i\<close> when the call starts. \<open>returned r\<close>: the call has returned.
\<close>

definition referent :: "'a arg \<Rightarrow> 'a heap \<Rightarrow> 'a option" where
  "referent a h = (case a of Object x \<Rightarrow> Some x | Element p j \<Rightarrow> read_at (Some p) j h)"






text \<open>The two invariants on the fields alone: \<open>size \<le> capacity\<close>, and storage whenever the
  capacity is positive.\<close>

definition state_inv :: "FastVector \<Rightarrow> bool" where
  "state_inv v \<longleftrightarrow> m_Size v \<le> m_Capacity v \<and> (0 < m_Capacity v \<longrightarrow> m_Data v \<noteq> None)"

text \<open>The bytes of the block a vector holds, the capacity \<^verbatim>\<open>grow()\<close> computes (line 209),
  the number of slots of the block at an address, and a list whose entries from \<open>i\<close> up
  to \<open>n\<close> are replaced by \<open>f\<close> of their index (what a loop over these indices leaves).\<close>

definition footprint :: "'a elem_type \<Rightarrow> FastVector \<Rightarrow> nat" where
  "footprint T v = (case m_Data v of None \<Rightarrow> 0 | Some p \<Rightarrow> unat (m_Capacity v) * unat (sizeof T))"

definition grown_capacity :: "size_t \<Rightarrow> size_t" where
  "grown_capacity c = (if c > 0 then c * 2 else initialCapacity)"

definition room :: "'a heap \<Rightarrow> addr \<Rightarrow> nat" where
  "room h a = (case blocks h a of None \<Rightarrow> 0 | Some b \<Rightarrow> length (blk_slots b))"

definition upd_range :: "nat \<Rightarrow> nat \<Rightarrow> (nat \<Rightarrow> 'b) \<Rightarrow> 'b list \<Rightarrow> 'b list" where
  "upd_range i n f xs = map (\<lambda>k. if i \<le> k \<and> k < n then f k else xs ! k) [0..<length xs]"

subsection \<open>Concrete states\<close>

text \<open>\<^verbatim>\<open>int\<close> as element type; a heap with nothing allocated; the heap a
  \<^verbatim>\<open>FastVector<int>\<close> leaves after its first growth (one block of four slots at address 1)
  with the vector that owns it; the same with a second vector and its block at address 2.\<close>

definition int_T :: "int elem_type" where
  "int_T = \<lparr>sizeof = 4, alignof = 4, nothrow_move = True, moved_from = (\<lambda>x. x)\<rparr>"

definition fresh_heap :: "nat \<Rightarrow> 'a heap" where
  "fresh_heap n = \<lparr>blocks = (\<lambda>_. None), next_addr = 1, avail = n, released = []\<rparr>"

definition one_block :: "int option list \<Rightarrow> int heap" where
  "one_block sl =
     \<lparr>blocks = (\<lambda>_. None)(1 \<mapsto> \<lparr>blk_bytes = 16, blk_align = 4, blk_slots = sl\<rparr>),
      next_addr = 2, avail = 4080, released = []\<rparr>"

definition one_element :: FastVector where
  "one_element = \<lparr>m_Data = Some 1, m_Size = 1, m_Capacity = 4\<rparr>"

definition four_elements :: FastVector where
  "four_elements = \<lparr>m_Data = Some 1, m_Size = 4, m_Capacity = 4\<rparr>"

definition two_blocks :: "int option list \<Rightarrow> int option list \<Rightarrow> int heap" where
  "two_blocks sl1 sl2 =
     \<lparr>blocks = (\<lambda>_. None)(1 \<mapsto> \<lparr>blk_bytes = 16, blk_align = 4, blk_slots = sl1\<rparr>,
                            2 \<mapsto> \<lparr>blk_bytes = 16, blk_align = 4, blk_slots = sl2\<rparr>),
      next_addr = 3, avail = 4064, released = []\<rparr>"

definition second_element :: FastVector where
  "second_element = \<lparr>m_Data = Some 2, m_Size = 1, m_Capacity = 4\<rparr>"

definition two_vectors :: "int world" where
  "two_vectors =
     \<lparr>objects = (\<lambda>_. None)(0 \<mapsto> one_element, 1 \<mapsto> second_element),
      mem = two_blocks [Some 7, None, None, None] [Some 9, None, None, None]\<rparr>"

section \<open>The loops on a well-formed block\<close>

text \<open>What each loop returns when the elements it reads are live and the blocks are large
  enough: the exact heap.\<close>

lemma length_upd_range [simp]: "length (upd_range i n f xs) = length xs"
  by (simp add: upd_range_def)

lemma nth_upd_range [simp]:
  "k < length xs \<Longrightarrow> upd_range i n f xs ! k = (if i \<le> k \<and> k < n then f k else xs ! k)"
  by (simp add: upd_range_def)

lemma upd_range_done [simp]: "n \<le> i \<Longrightarrow> upd_range i n f xs = xs"
  by (rule nth_equalityI) auto

lemma upd_range_step:
  assumes "i < n" "y = f i"
  shows "upd_range (Suc i) n f (xs[i := y]) = upd_range i n f xs"
proof (rule nth_equalityI)
  show "length (upd_range (Suc i) n f (xs[i := y])) = length (upd_range i n f xs)" by simp
next
  fix k assume "k < length (upd_range (Suc i) n f (xs[i := y]))"
  then have k: "k < length xs" by simp
  show "upd_range (Suc i) n f (xs[i := y]) ! k = upd_range i n f xs ! k"
    using assms k by (cases "k = i") auto
qed

lemma nuke_loop_live:
  "blocks h p = Some b \<Longrightarrow> n \<le> length (blk_slots b) \<Longrightarrow>
   (\<forall>k. i \<le> k \<and> k < n \<longrightarrow> blk_slots b ! k \<noteq> None) \<Longrightarrow>
   nuke_loop (Some p) i n h =
     Some (h\<lparr>blocks := (blocks h)(p \<mapsto> b\<lparr>blk_slots := upd_range i n (\<lambda>_. None) (blk_slots b)\<rparr>)\<rparr>)"
proof (induction "n - i" arbitrary: i h b)
  case 0
  then have "n \<le> i" by simp
  then show ?case using 0 by (simp add: nuke_loop.simps fun_upd_idem)
next
  case (Suc d)
  then have lt: "i < n" by simp
  let ?b = "b\<lparr>blk_slots := (blk_slots b)[i := None]\<rparr>"
  let ?h = "h\<lparr>blocks := (blocks h)(p \<mapsto> ?b)\<rparr>"
  have d: "destroy_at (Some p) i h = Some ?h"
    using Suc.prems lt by (simp add: destroy_at_def)
  have "nuke_loop (Some p) (Suc i) n ?h =
     Some (?h\<lparr>blocks := (blocks ?h)(p \<mapsto> ?b\<lparr>blk_slots := upd_range (Suc i) n (\<lambda>_. None) (blk_slots ?b)\<rparr>)\<rparr>)"
    by (rule Suc.hyps(1)) (use Suc.hyps(2) Suc.prems lt in \<open>auto simp: nth_list_update\<close>)
  then show ?case
    using d lt by (subst nuke_loop.simps) (simp add: upd_range_step)
qed

lemma upd_range_cong:
  "(\<And>k. i \<le> k \<Longrightarrow> k < n \<Longrightarrow> k < length xs \<Longrightarrow> f k = g k) \<Longrightarrow> upd_range i n f xs = upd_range i n g xs"
  by (rule nth_equalityI) auto

lemma upd_range_shift:
  assumes "i < n" "y = f i" "\<And>k. Suc i \<le> k \<Longrightarrow> k < n \<Longrightarrow> k < length xs \<Longrightarrow> g k = f k"
  shows "upd_range (Suc i) n g (xs[i := y]) = upd_range i n f xs"
proof -
  have "upd_range (Suc i) n g (xs[i := y]) = upd_range (Suc i) n f (xs[i := y])"
    by (rule upd_range_cong) (simp add: assms(3))
  then show ?thesis using assms(1,2) by (simp add: upd_range_step [where f = f])
qed

lemma copy_loop_live:
  assumes "blocks h src = Some bs" "blocks h dst = Some bd" "src \<noteq> dst"
    "n \<le> length (blk_slots bs)" "n \<le> length (blk_slots bd)"
    "\<forall>k. i \<le> k \<and> k < n \<longrightarrow> blk_slots bs ! k \<noteq> None"
  shows "copy_loop (Some dst) (Some src) i n h =
     Some (h\<lparr>blocks := (blocks h)(dst \<mapsto> bd\<lparr>blk_slots := upd_range i n (\<lambda>k. blk_slots bs ! k) (blk_slots bd)\<rparr>)\<rparr>)"
  using assms
proof (induction "n - i" arbitrary: i h bd)
  case 0
  then have "n \<le> i" by simp
  then show ?case using 0 by (simp add: copy_loop.simps fun_upd_idem)
next
  case (Suc d)
  then have lt: "i < n" by simp
  then obtain x where x: "blk_slots bs ! i = Some x" using Suc.prems by auto
  let ?b = "bd\<lparr>blk_slots := (blk_slots bd)[i := Some x]\<rparr>"
  let ?h = "h\<lparr>blocks := (blocks h)(dst \<mapsto> ?b)\<rparr>"
  have c: "copy_construct_at (Some dst) i (Some src) i h = Some ?h"
    using Suc.prems lt x by (simp add: copy_construct_at_def read_at_def construct_at_def)
  have "copy_loop (Some dst) (Some src) (Suc i) n ?h =
     Some (?h\<lparr>blocks := (blocks ?h)(dst \<mapsto> ?b\<lparr>blk_slots := upd_range (Suc i) n (\<lambda>k. blk_slots bs ! k) (blk_slots ?b)\<rparr>)\<rparr>)"
    by (rule Suc.hyps(1)) (use Suc.hyps(2) Suc.prems lt in auto)
  then show ?case
    using c lt x by (subst copy_loop.simps) (simp add: upd_range_step)
qed

lemma move_loop_live:
  assumes "blocks h src = Some bs" "blocks h dst = Some bd" "src \<noteq> dst"
    "n \<le> length (blk_slots bs)" "n \<le> length (blk_slots bd)"
    "\<forall>k. i \<le> k \<and> k < n \<longrightarrow> blk_slots bs ! k \<noteq> None"
  shows "move_loop T (Some dst) (Some src) i n h =
     Some (h\<lparr>blocks := (blocks h)
              (dst \<mapsto> bd\<lparr>blk_slots := upd_range i n (\<lambda>k. blk_slots bs ! k) (blk_slots bd)\<rparr>,
               src \<mapsto> bs\<lparr>blk_slots := upd_range i n (\<lambda>k. map_option (moved_from T) (blk_slots bs ! k)) (blk_slots bs)\<rparr>)\<rparr>)"
  using assms
proof (induction "n - i" arbitrary: i h bd bs)
  case 0
  then have "n \<le> i" by simp
  then show ?case using 0 by (simp add: move_loop.simps fun_upd_idem)
next
  case (Suc d)
  then have lt: "i < n" by simp
  then obtain x where x: "blk_slots bs ! i = Some x" using Suc.prems by auto
  let ?bd = "bd\<lparr>blk_slots := (blk_slots bd)[i := Some x]\<rparr>"
  let ?bs = "bs\<lparr>blk_slots := (blk_slots bs)[i := Some (moved_from T x)]\<rparr>"
  let ?h = "h\<lparr>blocks := (blocks h)(dst \<mapsto> ?bd, src \<mapsto> ?bs)\<rparr>"
  have c: "move_construct_at T (Some dst) i (Some src) i h = Some ?h"
    using Suc.prems lt x
    by (simp add: move_construct_at_def read_at_def construct_at_def assign_at_def)
  have ih: "move_loop T (Some dst) (Some src) (Suc i) n ?h =
     Some (?h\<lparr>blocks := (blocks ?h)
              (dst \<mapsto> ?bd\<lparr>blk_slots := upd_range (Suc i) n (\<lambda>k. blk_slots ?bs ! k) (blk_slots ?bd)\<rparr>,
               src \<mapsto> ?bs\<lparr>blk_slots := upd_range (Suc i) n (\<lambda>k. map_option (moved_from T) (blk_slots ?bs ! k)) (blk_slots ?bs)\<rparr>)\<rparr>)"
    by (rule Suc.hyps(1)) (use Suc.hyps(2) Suc.prems lt in \<open>auto simp: nth_list_update\<close>)
  have e1: "upd_range (Suc i) n (\<lambda>k. blk_slots ?bs ! k) (blk_slots ?bd)
          = upd_range i n (\<lambda>k. blk_slots bs ! k) (blk_slots bd)"
    using lt x by (simp add: upd_range_shift)
  have e2: "upd_range (Suc i) n (\<lambda>k. map_option (moved_from T) (blk_slots ?bs ! k)) (blk_slots ?bs)
          = upd_range i n (\<lambda>k. map_option (moved_from T) (blk_slots bs ! k)) (blk_slots bs)"
    using lt x by (simp add: upd_range_shift)
  show ?case
    using c lt ih unfolding e1 e2 by (subst move_loop.simps) (simp add: fun_upd_twist)
qed

section \<open>Sizes without wrap-around\<close>

lemma unat_grown_capacity:
  "(if c = 0 then 4 else 2 * unat c) < 2 ^ 64 \<Longrightarrow> unat (grown_capacity c) = (if c = 0 then 4 else 2 * unat c)"
  apply (auto simp: grown_capacity_def initialCapacity_def word_gt_0)
  apply (subst unat_mult_lem [THEN iffD1])
   apply simp_all
  done

lemma unat_mult_size:
  "unat (a::size_t) * unat (b::size_t) < 2 ^ 64 \<Longrightarrow> unat (a * b) = unat a * unat b"
  by (subst unat_mult_lem [THEN iffD1]) simp_all

lemma unat_size_succ:
  fixes a c :: size_t
  assumes "a < c"
  shows "unat (a + 1) = Suc (unat a)" "a + 1 \<le> c"
proof -
  have "unat a < unat c" using assms by (simp add: word_less_nat_alt)
  moreover have "unat c < 2 ^ 64" using unsigned_less [of c] by simp
  ultimately have "unat a + unat (1 :: size_t) < 2 ^ LENGTH(64)" by simp
  then have "unat (a + 1) = unat a + unat (1 :: size_t)" by (simp only: unat_add_lem)
  then show "unat (a + 1) = Suc (unat a)" by simp
  show "a + 1 \<le> c" using assms by (rule inc_le)
qed


lemma unat_mult_div_le: "unat ((n :: size_t) * s) div unat s \<le> unat n"
proof (cases "unat s = 0")
  case True
  then show ?thesis by simp
next
  case False
  have "unat (n * s) \<le> unat n * unat s"
    by (simp add: unat_word_ariths)
  then have "unat (n * s) div unat s \<le> (unat n * unat s) div unat s"
    by (rule div_le_mono)
  then show ?thesis using False by simp
qed

lemma allocate_fits:
  assumes "unat n * unat (sizeof T) \<le> avail h" "unat n * unat (sizeof T) < 2 ^ 64" "sizeof T \<noteq> 0"
  shows "allocate T n h = Returns (Some (next_addr h),
             h\<lparr>blocks := (blocks h)(next_addr h \<mapsto>
                   \<lparr>blk_bytes = n * sizeof T, blk_align = alignof T,
                    blk_slots = replicate (unat n) None\<rparr>),
               next_addr := Suc (next_addr h),
               avail := avail h - unat n * unat (sizeof T)\<rparr>)"
proof -
  have "unat (sizeof T) \<noteq> 0" using assms(3) by (simp add: unat_eq_0)
  then show ?thesis using assms(1,2)
    by (simp add: allocate_def Let_def unat_mult_size)
qed

section \<open>Growth and insertion keep the representation\<close>

lemma nth_prefix:
  assumes "take n ys = map Some xs" "length xs = n" "k < n"
  shows "ys ! k = Some (xs ! k)"
proof -
  have "take n ys ! k = ys ! k" using assms(3) by simp
  moreover have "map Some xs ! k = Some (xs ! k)" using assms(2,3) by simp
  ultimately show ?thesis using assms(1) by simp
qed

lemma upd_range_prefix:
  assumes "take n ys = map Some xs" "length xs = n" "n \<le> m" "n \<le> length ys"
  shows "upd_range 0 n (\<lambda>k. ys ! k) (replicate m None) = map Some xs @ replicate (m - n) None"
proof (rule nth_equalityI)
  show "length (upd_range 0 n ((!) ys) (replicate m None)) = length (map Some xs @ replicate (m - n) None)"
    using assms by simp
next
  fix k assume "k < length (upd_range 0 n ((!) ys) (replicate m None))"
  then have k: "k < m" by simp
  show "upd_range 0 n ((!) ys) (replicate m None) ! k = (map Some xs @ replicate (m - n) None) ! k"
  proof (cases "k < n")
    case True
    have "ys ! k = Some (xs ! k)" using True assms by (intro nth_prefix) auto
    then show ?thesis using True k assms by (simp add: nth_append)
  next
    case False
    then show ?thesis using k assms by (simp add: nth_append)
  qed
qed

lemma live_prefix:
  assumes "take n ys = map Some xs" "length xs = n" "k < n"
  shows "ys ! k \<noteq> None"
  using nth_prefix [OF assms] by simp

lemma represents_default: "represents T FastVector_default h []"
  by (simp add: represents_def FastVector_default_def)

lemma grow_block:
  fixes T :: "'a elem_type"
  assumes rep: "represents T v h xs" and p: "m_Data v = Some p" and s: "sizeof T \<noteq> 0"
    and nc: "nc = grown_capacity (m_Capacity v)"
    and fits: "unat nc * unat (sizeof T) \<le> avail h" "unat nc * unat (sizeof T) < 2 ^ 64"
    and ge: "unat (m_Capacity v) \<le> unat nc"
  shows "grow T v h =
     Returns (v\<lparr>m_Data := Some (next_addr h), m_Capacity := nc\<rparr>,
       h\<lparr>blocks := (blocks h)
            (next_addr h \<mapsto> \<lparr>blk_bytes = nc * sizeof T, blk_align = alignof T,
                blk_slots = map Some xs @ replicate (unat nc - length xs) None\<rparr>,
             p := None),
         next_addr := Suc (next_addr h),
         avail := avail h - unat nc * unat (sizeof T) + unat (m_Capacity v) * unat (sizeof T),
         released := released h @
           [(p, (m_Capacity v * sizeof T, alignof T), (m_Capacity v * sizeof T, alignof T))]\<rparr>)"
proof -
  let ?a = "next_addr h"
  let ?n = "unat (m_Size v)"
  obtain b where b: "blocks h p = Some b" and pa: "p < ?a"
    and bb: "blk_bytes b = m_Capacity v * sizeof T" "blk_align b = alignof T"
    and nw: "unat (m_Capacity v) * unat (sizeof T) < 2 ^ 64"
    and len: "length (blk_slots b) = unat (m_Capacity v)"
    and tk: "take (length xs) (blk_slots b) = map Some xs"
    and n: "?n = length xs" and le: "m_Size v \<le> m_Capacity v"
    using rep p by (auto simp: represents_def split: option.splits)
  have nle: "?n \<le> unat (m_Capacity v)" using le by (simp add: word_le_nat_alt)
  let ?bn = "\<lparr>blk_bytes = nc * sizeof T, blk_align = alignof T,
               blk_slots = replicate (unat nc) (None :: 'a option)\<rparr>"
  let ?h1 = "h\<lparr>blocks := (blocks h)(?a \<mapsto> ?bn), next_addr := Suc ?a,
               avail := avail h - unat nc * unat (sizeof T)\<rparr>"
  have al: "allocate T nc h = Returns (Some ?a, ?h1)"
    using fits s by (rule allocate_fits)
  let ?bn' = "?bn\<lparr>blk_slots := upd_range 0 ?n (\<lambda>k. blk_slots b ! k) (blk_slots ?bn)\<rparr>"
  have live: "\<forall>k. 0 \<le> k \<and> k < ?n \<longrightarrow> blk_slots b ! k \<noteq> None"
    using tk n by (auto simp: nth_prefix)
  have b1: "blocks ?h1 p = Some b" "blocks ?h1 ?a = Some ?bn" "p \<noteq> ?a"
    using b pa by auto
  have sl: "upd_range 0 ?n (\<lambda>k. blk_slots b ! k) (blk_slots ?bn) = map Some xs @ replicate (unat nc - length xs) None"
    using tk n nle ge len by (simp add: upd_range_prefix)
  have fin: "\<exists>h2. (if nothrow_move T
            then move_loop T (Some ?a) (m_Data v) 0 ?n ?h1
            else copy_loop (Some ?a) (m_Data v) 0 ?n ?h1) = Some h2 \<and>
          (\<exists>h3. nuke v h2 = Some h3 \<and> blocks h3 ?a = Some ?bn' \<and> (\<exists>b'. blocks h3 p = Some b' \<and> blk_bytes b' = blk_bytes b \<and> blk_align b' = blk_align b) \<and>
             (\<forall>q. q \<noteq> p \<longrightarrow> q \<noteq> ?a \<longrightarrow> blocks h3 q = blocks h q) \<and>
             next_addr h3 = Suc ?a \<and> avail h3 = avail ?h1 \<and> released h3 = released h)"
  proof (cases "nothrow_move T")
    case True
    let ?bs = "b\<lparr>blk_slots := upd_range 0 ?n (\<lambda>k. map_option (moved_from T) (blk_slots b ! k)) (blk_slots b)\<rparr>"
    let ?h2 = "?h1\<lparr>blocks := (blocks ?h1)(?a \<mapsto> ?bn', p \<mapsto> ?bs)\<rparr>"
    have m: "move_loop T (Some ?a) (m_Data v) 0 ?n ?h1 = Some ?h2"
      unfolding p using b1 nle ge len live by (intro move_loop_live) auto
    have "nuke_loop (Some p) 0 ?n ?h2 =
        Some (?h2\<lparr>blocks := (blocks ?h2)(p \<mapsto> ?bs\<lparr>blk_slots := upd_range 0 ?n (\<lambda>_. None) (blk_slots ?bs)\<rparr>)\<rparr>)"
      using nle len live by (intro nuke_loop_live) auto
    then show ?thesis using True m b1 by (simp add: nuke_def p)
  next
    case False
    let ?h2 = "?h1\<lparr>blocks := (blocks ?h1)(?a \<mapsto> ?bn')\<rparr>"
    have m: "copy_loop (Some ?a) (m_Data v) 0 ?n ?h1 = Some ?h2"
      unfolding p using b1 nle ge len live by (intro copy_loop_live) auto
    have "nuke_loop (Some p) 0 ?n ?h2 =
        Some (?h2\<lparr>blocks := (blocks ?h2)(p \<mapsto> b\<lparr>blk_slots := upd_range 0 ?n (\<lambda>_. None) (blk_slots b)\<rparr>)\<rparr>)"
      using nle len live b1 by (intro nuke_loop_live) auto
    then show ?thesis using False m b1 by (simp add: nuke_def p)
  qed
  then obtain h2 h3 b' where
    l: "(if nothrow_move T then move_loop T (Some ?a) (m_Data v) 0 ?n ?h1
            else copy_loop (Some ?a) (m_Data v) 0 ?n ?h1) = Some h2"
    and k: "nuke v h2 = Some h3" and h3: "blocks h3 ?a = Some ?bn'" "blocks h3 p = Some b'"
      "blk_bytes b' = blk_bytes b" "blk_align b' = blk_align b"
      "\<forall>q. q \<noteq> p \<longrightarrow> q \<noteq> ?a \<longrightarrow> blocks h3 q = blocks h q"
      "next_addr h3 = Suc ?a" "avail h3 = avail ?h1" "released h3 = released h"
    by blast
  have bl: "(blocks h3)(p := None) = (blocks h)(?a \<mapsto> ?bn', p := None)"
    using h3 by (auto simp: fun_eq_iff)
  have d: "deallocate T (m_Data v) (m_Capacity v) h3 =
      Some (h\<lparr>blocks := (blocks h)(?a \<mapsto> ?bn', p := None), next_addr := Suc ?a,
         avail := avail h - unat nc * unat (sizeof T) + unat (m_Capacity v) * unat (sizeof T),
         released := released h @
           [(p, (m_Capacity v * sizeof T, alignof T), (m_Capacity v * sizeof T, alignof T))]\<rparr>)"
    unfolding deallocate_def p using h3 bb nw bl
    by (simp add: unat_mult_size)
  show ?thesis
    unfolding grow_def using al l k d sl
    by (simp add: nc [symmetric] grown_capacity_def [symmetric] Let_def)
qed

lemma grow_null:
  assumes "m_Data v = None" "m_Size v = 0" "m_Capacity v = 0" "sizeof T \<noteq> 0"
    "4 * unat (sizeof T) \<le> avail h" "4 * unat (sizeof T) < 2 ^ 64"
  shows "grow T v h =
     Returns (v\<lparr>m_Data := Some (next_addr h), m_Capacity := 4\<rparr>,
       h\<lparr>blocks := (blocks h)
            (next_addr h \<mapsto> \<lparr>blk_bytes = 4 * sizeof T, blk_align = alignof T,
                blk_slots = replicate 4 None\<rparr>),
         next_addr := Suc (next_addr h),
         avail := avail h - 4 * unat (sizeof T)\<rparr>)"
proof -
  have "allocate T 4 h = Returns (Some (next_addr h),
       h\<lparr>blocks := (blocks h)
            (next_addr h \<mapsto> \<lparr>blk_bytes = 4 * sizeof T, blk_align = alignof T,
                blk_slots = replicate (unat (4 :: size_t)) None\<rparr>),
         next_addr := Suc (next_addr h),
         avail := avail h - unat (4 :: size_t) * unat (sizeof T)\<rparr>)"
    using assms by (intro allocate_fits) auto
  then show ?thesis
    using assms
    by (simp add: grow_def initialCapacity_def move_loop.simps copy_loop.simps nuke_def
        nuke_loop.simps deallocate_def)
qed

lemma grow_represents:
  assumes rep: "represents T v h xs" and s: "sizeof T \<noteq> 0"
    and fits: "(if m_Capacity v = 0 then 4 else 2 * unat (m_Capacity v)) * unat (sizeof T) \<le> avail h"
      "(if m_Capacity v = 0 then 4 else 2 * unat (m_Capacity v)) * unat (sizeof T) < 2 ^ 64"
  shows "\<exists>h'. grow T v h =
            Returns (v\<lparr>m_Data := Some (next_addr h), m_Capacity := grown_capacity (m_Capacity v)\<rparr>, h')
          \<and> represents T (v\<lparr>m_Data := Some (next_addr h), m_Capacity := grown_capacity (m_Capacity v)\<rparr>) h' xs
          \<and> avail h' + unat (grown_capacity (m_Capacity v)) * unat (sizeof T) = avail h + footprint T v"
proof -
  let ?nc = "grown_capacity (m_Capacity v)"
  let ?m = "if m_Capacity v = 0 then 4 else 2 * unat (m_Capacity v)"
  have s1: "1 \<le> unat (sizeof T)" using s by (simp add: unat_eq_0 Suc_le_eq unat_gt_0)
  have "?m \<le> ?m * unat (sizeof T)" using s1 by (cases "unat (sizeof T)") auto
  then have m64: "?m < 2 ^ 64" using fits(2) by (rule le_less_trans)
  have nc: "unat ?nc = ?m" using m64 by (rule unat_grown_capacity)
  have n: "unat (m_Size v) = length xs" and le: "m_Size v \<le> m_Capacity v"
    using rep by (auto simp: represents_def)
  have nle: "length xs \<le> unat (m_Capacity v)" using le n by (simp add: word_le_nat_alt)
  have ge: "unat (m_Capacity v) \<le> unat ?nc" unfolding nc by (auto simp: unat_eq_0)
  show ?thesis
  proof (cases "m_Data v")
    case None
    then have c0: "m_Capacity v = 0" using rep by (simp add: represents_def)
    then have z: "m_Size v = 0" using le by simp
    then have xs: "xs = []" using n by simp
    have g4: "grown_capacity 0 = 4" by (simp add: grown_capacity_def initialCapacity_def)
    show ?thesis
      using grow_null [OF None z c0 s] fits c0 None xs s1 z
      by (simp add: g4 represents_def footprint_def unat_mult_size)
  next
    case (Some p)
    obtain b where b: "blocks h p = Some b" and pa: "p < next_addr h"
      and nw: "unat (m_Capacity v) * unat (sizeof T) < 2 ^ 64"
      using rep Some by (auto simp: represents_def split: option.splits)
    have g: "grow T v h =
     Returns (v\<lparr>m_Data := Some (next_addr h), m_Capacity := ?nc\<rparr>,
       h\<lparr>blocks := (blocks h)
            (next_addr h \<mapsto> \<lparr>blk_bytes = ?nc * sizeof T, blk_align = alignof T,
                blk_slots = map Some xs @ replicate (unat ?nc - length xs) None\<rparr>,
             p := None),
         next_addr := Suc (next_addr h),
         avail := avail h - unat ?nc * unat (sizeof T) + unat (m_Capacity v) * unat (sizeof T),
         released := released h @
           [(p, (m_Capacity v * sizeof T, alignof T), (m_Capacity v * sizeof T, alignof T))]\<rparr>)"
      using rep Some s _ _ _ ge by (rule grow_block) (use fits nc in auto)
    have pne: "p \<noteq> next_addr h" using pa by simp
    have szle: "m_Size v \<le> ?nc" using le ge by (simp add: word_le_nat_alt)
    have fits': "unat ?nc * unat (sizeof T) \<le> avail h" "unat ?nc * unat (sizeof T) < 2 ^ 64"
      using fits nc by auto
    have nle': "length xs \<le> unat ?nc" using nle ge by simp
    show ?thesis
      unfolding g using fits' nle' n pne Some szle
      by (simp add: represents_def footprint_def)
  qed
qed

lemma construct_represents:
  assumes rep: "represents T v h xs" and lt: "m_Size v < m_Capacity v"
  shows "\<exists>h'. construct_at (m_Data v) (unat (m_Size v)) x h = Some h'
           \<and> represents T (v\<lparr>m_Size := m_Size v + 1\<rparr>) h' (xs @ [x])
           \<and> avail h' = avail h"
proof -
  have c0: "m_Capacity v \<noteq> 0" using lt by auto
  then obtain p where p: "m_Data v = Some p" using rep by (cases "m_Data v") (auto simp: represents_def)
  obtain b where b: "blocks h p = Some b" and pa: "p < next_addr h"
    and bb: "blk_bytes b = m_Capacity v * sizeof T" "blk_align b = alignof T"
    and nw: "unat (m_Capacity v) * unat (sizeof T) < 2 ^ 64"
    and len: "length (blk_slots b) = unat (m_Capacity v)"
    and tk: "take (length xs) (blk_slots b) = map Some xs"
    and n: "unat (m_Size v) = length xs"
    using rep p by (auto simp: represents_def split: option.splits)
  have lt': "length xs < length (blk_slots b)" using lt n len by (simp add: word_less_nat_alt)
  have tk': "take (Suc (length xs)) ((blk_slots b)[length xs := Some x]) = map Some (xs @ [x])"
    using lt' tk by (simp add: take_Suc_conv_app_nth)
  show ?thesis
    using p b pa bb nw len n lt' tk' unat_size_succ [OF lt]
    by (simp add: construct_at_def represents_def)
qed

lemma copy_construct_from_object [simp]:
  "copy_construct_from dst i (Object x) h = construct_at dst i x h"
  by (simp add: copy_construct_from_def)

lemma move_construct_from_object [simp]:
  "move_construct_from T dst i (Object x) h = construct_at dst i x h"
  by (simp add: move_construct_from_def)

lemma push_call_object:
  assumes "arg_of c = Object x"
  shows "push_call T c v h =
     (case (if m_Size v = m_Capacity v then grow T v h else Returns (v, h)) of
        Fails e s \<Rightarrow> Fails e s
      | Undefined \<Rightarrow> Undefined
      | Returns (v1, h1) \<Rightarrow>
          (case construct_at (m_Data v1) (unat (m_Size v1)) x h1 of
             None \<Rightarrow> Undefined
           | Some h2 \<Rightarrow> Returns (v1\<lparr>m_Size := m_Size v1 + 1\<rparr>, h2)))"
  using assms
  by (cases c) (auto simp: push_back_def push_back_rvalue_def split: outcome.splits)

lemma push_back_rvalue_object:
  "push_back_rvalue T (Object x) v h = push_back T (Object x) v h"
  by (auto simp: push_back_def push_back_rvalue_def split: outcome.splits)

lemma push_call_represents:
  assumes obj: "arg_of c = Object x" and rep: "represents T v h xs" and s: "sizeof T \<noteq> 0"
    and fits: "m_Size v = m_Capacity v \<Longrightarrow>
        (if m_Capacity v = 0 then 4 else 2 * unat (m_Capacity v)) * unat (sizeof T) \<le> avail h \<and>
        (if m_Capacity v = 0 then 4 else 2 * unat (m_Capacity v)) * unat (sizeof T) < 2 ^ 64"
  shows "\<exists>v' h'. push_call T c v h = Returns (v', h')
           \<and> represents T v' h' (xs @ [x])
           \<and> avail h' + footprint T v' = avail h + footprint T v
           \<and> m_Size v' = m_Size v + 1
           \<and> m_Capacity v' = (if m_Size v = m_Capacity v then grown_capacity (m_Capacity v) else m_Capacity v)"
proof (cases "m_Size v = m_Capacity v")
  case True
  let ?v1 = "v\<lparr>m_Data := Some (next_addr h), m_Capacity := grown_capacity (m_Capacity v)\<rparr>"
  let ?m = "if m_Capacity v = 0 then 4 else 2 * unat (m_Capacity v)"
  obtain h1 where g: "grow T v h = Returns (?v1, h1)" and r1: "represents T ?v1 h1 xs"
    and a1: "avail h1 + unat (grown_capacity (m_Capacity v)) * unat (sizeof T) = avail h + footprint T v"
    using grow_represents [OF rep s] fits [OF True] by blast
  have s1: "1 \<le> unat (sizeof T)" using s by (simp add: unat_eq_0 Suc_le_eq unat_gt_0)
  have "?m \<le> ?m * unat (sizeof T)" using s1 by (cases "unat (sizeof T)") auto
  moreover have "?m * unat (sizeof T) < 2 ^ 64" using fits [OF True] by blast
  ultimately have m64: "?m < 2 ^ 64" by (rule le_less_trans)
  have nc: "unat (grown_capacity (m_Capacity v)) = ?m" using m64 by (rule unat_grown_capacity)
  have "unat (m_Size v) < unat (grown_capacity (m_Capacity v))"
    unfolding nc using True by (auto simp: unat_gt_0)
  then have lt: "m_Size ?v1 < m_Capacity ?v1" by (simp add: word_less_nat_alt)
  obtain h2 where c: "construct_at (m_Data ?v1) (unat (m_Size ?v1)) x h1 = Some h2"
    and r2: "represents T (?v1\<lparr>m_Size := m_Size ?v1 + 1\<rparr>) h2 (xs @ [x])"
    and a2: "avail h2 = avail h1"
    using construct_represents [OF r1 lt] by blast
  show ?thesis
    using True g c r2 a1 a2 by (simp add: push_call_object [OF obj] footprint_def)
next
  case False
  have "m_Size v \<le> m_Capacity v" using rep by (simp add: represents_def)
  then have lt: "m_Size v < m_Capacity v" using False by simp
  obtain h2 where c: "construct_at (m_Data v) (unat (m_Size v)) x h = Some h2"
    and r2: "represents T (v\<lparr>m_Size := m_Size v + 1\<rparr>) h2 (xs @ [x])"
    and a2: "avail h2 = avail h"
    using construct_represents [OF rep lt] by blast
  show ?thesis
    using False c r2 a2 by (simp add: push_call_object [OF obj] footprint_def split: option.splits)
qed



lemma five_pushes_return:
  assumes s: "sizeof T \<noteq> 0" and m: "12 * unat (sizeof T) \<le> avail h" "12 * unat (sizeof T) < 2 ^ 64"
    and o: "arg_of ca = Object a" "arg_of cb = Object b" "arg_of cc = Object c"
      "arg_of cd = Object d" "arg_of ce = Object e"
  shows "\<exists>v' h'. push_back_all T [ca, cb, cc, cd, ce] FastVector_default h = Returns (v', h')"
proof -
  let ?s = "unat (sizeof T)"
  let ?v0 = "FastVector_default"
  have g0: "grown_capacity 0 = 4" by (simp add: grown_capacity_def initialCapacity_def)
  have f0: "footprint T ?v0 = 0" by (simp add: footprint_def FastVector_default_def)
  have z0: "m_Size ?v0 = 0" "m_Capacity ?v0 = 0" by (simp_all add: FastVector_default_def)
  obtain v1 h1 where p1: "push_call T ca ?v0 h = Returns (v1, h1)"
    and r1: "represents T v1 h1 ([] @ [a])"
    and a1: "avail h1 + footprint T v1 = avail h + footprint T ?v0"
    and z1: "m_Size v1 = m_Size ?v0 + 1"
      "m_Capacity v1 = (if m_Size ?v0 = m_Capacity ?v0 then grown_capacity (m_Capacity ?v0) else m_Capacity ?v0)"
    using push_call_represents [OF o(1) represents_default s, where h = h] m z0 by auto
  have y1: "m_Size v1 = 1" "m_Capacity v1 = 4" using z1 z0 g0 by simp_all
  obtain v2 h2 where p2: "push_call T cb v1 h1 = Returns (v2, h2)"
    and r2: "represents T v2 h2 (([] @ [a]) @ [b])"
    and a2: "avail h2 + footprint T v2 = avail h1 + footprint T v1"
    and z2: "m_Size v2 = m_Size v1 + 1"
      "m_Capacity v2 = (if m_Size v1 = m_Capacity v1 then grown_capacity (m_Capacity v1) else m_Capacity v1)"
    using push_call_represents [OF o(2) r1 s] y1 by auto
  have y2: "m_Size v2 = 2" "m_Capacity v2 = 4" using z2 y1 by simp_all
  obtain v3 h3 where p3: "push_call T cc v2 h2 = Returns (v3, h3)"
    and r3: "represents T v3 h3 ((([] @ [a]) @ [b]) @ [c])"
    and a3: "avail h3 + footprint T v3 = avail h2 + footprint T v2"
    and z3: "m_Size v3 = m_Size v2 + 1"
      "m_Capacity v3 = (if m_Size v2 = m_Capacity v2 then grown_capacity (m_Capacity v2) else m_Capacity v2)"
    using push_call_represents [OF o(3) r2 s] y2 by auto
  have y3: "m_Size v3 = 3" "m_Capacity v3 = 4" using z3 y2 by simp_all
  obtain v4 h4 where p4: "push_call T cd v3 h3 = Returns (v4, h4)"
    and r4: "represents T v4 h4 (((([] @ [a]) @ [b]) @ [c]) @ [d])"
    and a4: "avail h4 + footprint T v4 = avail h3 + footprint T v3"
    and z4: "m_Size v4 = m_Size v3 + 1"
      "m_Capacity v4 = (if m_Size v3 = m_Capacity v3 then grown_capacity (m_Capacity v3) else m_Capacity v3)"
    using push_call_represents [OF o(4) r3 s] y3 by auto
  have y4: "m_Size v4 = 4" "m_Capacity v4 = 4" using z4 y3 by simp_all
  have "m_Data v4 \<noteq> None" using r4 y4 by (auto simp: represents_def split: option.splits)
  then have "footprint T v4 = 4 * ?s" using y4 by (auto simp: footprint_def)
  then have av: "avail h4 + 4 * ?s = avail h" using a1 a2 a3 a4 f0 by simp
  have "8 * ?s \<le> avail h4" "8 * ?s < 2 ^ 64" using av m by simp_all
  then obtain v5 h5 where p5: "push_call T ce v4 h4 = Returns (v5, h5)"
    using push_call_represents [OF o(5) r4 s] y4 by auto
  show ?thesis using p1 p2 p3 p4 p5 by simp
qed

section \<open>What a call that returned has done\<close>

text \<open>These lemmas assume nothing about the heap: they read off a returned call how many
  slots each block has, which blocks it left alone, and what the fields are.\<close>

lemma construct_at_room: "construct_at p i x h = Some h' \<Longrightarrow> room h' a = room h a"
  by (auto simp: construct_at_def room_def split: option.splits if_splits)

lemma construct_at_bound: "construct_at (Some a) i x h = Some h' \<Longrightarrow> i < room h a"
  by (auto simp: construct_at_def room_def split: option.splits if_splits)

lemma construct_at_null: "construct_at None i x h = None"
  by (simp add: construct_at_def)


lemma destroy_at_room: "destroy_at p i h = Some h' \<Longrightarrow> room h' a = room h a"
  by (auto simp: destroy_at_def room_def split: option.splits if_splits)

lemma assign_at_room: "assign_at p i x h = Some h' \<Longrightarrow> room h' a = room h a"
  by (auto simp: assign_at_def split: option.splits dest: construct_at_room)

lemma copy_construct_at_room: "copy_construct_at p i q j h = Some h' \<Longrightarrow> room h' a = room h a"
  by (auto simp: copy_construct_at_def split: option.splits dest: construct_at_room)

lemma move_construct_at_room:
  assumes "move_construct_at T p i q j h = Some h'"
  shows "room h' a = room h a"
proof -
  obtain y h1 where c: "construct_at p i y h = Some h1"
    and s: "assign_at q j (moved_from T y) h1 = Some h'"
    using assms by (auto simp: move_construct_at_def split: option.splits)
  show ?thesis using construct_at_room [OF c] assign_at_room [OF s] by simp
qed

lemma nuke_loop_room: "nuke_loop p i n h = Some h' \<Longrightarrow> room h' a = room h a"
proof (induction p i n h rule: nuke_loop.induct)
  case (1 p i n h)
  show ?case
  proof (cases "i < n")
    case True
    then obtain h1 where d: "destroy_at p i h = Some h1" and l: "nuke_loop p (Suc i) n h1 = Some h'"
      using "1.prems" by (subst (asm) nuke_loop.simps) (auto split: option.splits)
    have "room h' a = room h1 a" using "1.IH" [OF True d l] .
    then show ?thesis using destroy_at_room [OF d] by simp
  next
    case False
    then show ?thesis using "1.prems" by (subst (asm) nuke_loop.simps) simp
  qed
qed

lemma copy_loop_room: "copy_loop dst src i n h = Some h' \<Longrightarrow> room h' a = room h a"
proof (induction dst src i n h rule: copy_loop.induct)
  case (1 dst src i n h)
  show ?case
  proof (cases "i < n")
    case True
    then obtain h1 where d: "copy_construct_at dst i src i h = Some h1"
      and l: "copy_loop dst src (Suc i) n h1 = Some h'"
      using "1.prems" by (subst (asm) copy_loop.simps) (auto split: option.splits)
    have "room h' a = room h1 a" using "1.IH" [OF True d l] .
    then show ?thesis using copy_construct_at_room [OF d] by simp
  next
    case False
    then show ?thesis using "1.prems" by (subst (asm) copy_loop.simps) simp
  qed
qed

lemma move_loop_room: "move_loop T dst src i n h = Some h' \<Longrightarrow> room h' a = room h a"
proof (induction T dst src i n h rule: move_loop.induct)
  case (1 T dst src i n h)
  show ?case
  proof (cases "i < n")
    case True
    then obtain h1 where d: "move_construct_at T dst i src i h = Some h1"
      and l: "move_loop T dst src (Suc i) n h1 = Some h'"
      using "1.prems" by (subst (asm) move_loop.simps) (auto split: option.splits)
    have "room h' a = room h1 a" using "1.IH" [OF True d l] .
    then show ?thesis using move_construct_at_room [OF d] by simp
  next
    case False
    then show ?thesis using "1.prems" by (subst (asm) move_loop.simps) simp
  qed
qed

lemma deallocate_room: "deallocate T p n h = Some h' \<Longrightarrow> room h' a \<le> room h a"
  by (auto simp: deallocate_def room_def split: option.splits if_splits)

lemma allocate_room:
  "allocate T n h = Returns (p, h') \<Longrightarrow> p = Some (next_addr h) \<and> room h' (next_addr h) \<le> unat n"
  by (auto simp: allocate_def room_def Let_def unat_mult_div_le split: if_splits)

lemma grow_room:
  assumes "grow T v h = Returns (v', h')"
  shows "\<exists>a. m_Data v' = Some a \<and> room h' a \<le> unat (m_Capacity v')"
    and "m_Size v' = m_Size v"
    and "m_Capacity v' = (if m_Capacity v > 0 then m_Capacity v * 2 else initialCapacity)"
proof -
  let ?nc = "if m_Capacity v > 0 then m_Capacity v * 2 else initialCapacity"
  obtain p h1 h2 h3 where al: "allocate T ?nc h = Returns (p, h1)"
    and lp: "(if nothrow_move T then move_loop T p (m_Data v) 0 (unat (m_Size v)) h1
              else copy_loop p (m_Data v) 0 (unat (m_Size v)) h1) = Some h2"
    and nk: "nuke v h2 = Some h3"
    and de: "deallocate T (m_Data v) (m_Capacity v) h3 = Some h'"
    and v': "v' = v\<lparr>m_Data := p, m_Capacity := ?nc\<rparr>"
    using assms unfolding grow_def Let_def
    by (auto split: outcome.splits option.splits prod.splits)
  let ?a = "next_addr h"
  have p: "p = Some ?a" and r1: "room h1 ?a \<le> unat ?nc" using allocate_room [OF al] by auto
  have r2: "room h2 ?a = room h1 ?a"
    using lp by (auto split: if_splits dest: move_loop_room copy_loop_room)
  have r3: "room h3 ?a = room h2 ?a" using nk by (auto simp: nuke_def dest: nuke_loop_room)
  have r4: "room h' ?a \<le> room h3 ?a" using de by (rule deallocate_room)
  show "\<exists>a. m_Data v' = Some a \<and> room h' a \<le> unat (m_Capacity v')"
    using p r1 r2 r3 r4 v' by simp
  show "m_Size v' = m_Size v" using v' by simp
  show "m_Capacity v' = ?nc" using v' by simp
qed

lemma copy_construct_from_Some:
  assumes "copy_construct_from dst i a h = Some h'"
  shows "\<exists>x. referent a h = Some x \<and> construct_at dst i x h = Some h'"
  using assms
  by (cases a) (auto simp: copy_construct_from_def referent_def copy_construct_at_def
      split: option.splits)

lemma move_construct_from_Some:
  assumes "move_construct_from T dst i a h = Some h'"
  shows "\<exists>x hm. referent a h = Some x \<and> construct_at dst i x h = Some hm \<and>
           (h' = hm \<or> (\<exists>p j. a = Element p j \<and> assign_at (Some p) j (moved_from T x) hm = Some h'))"
  using assms
  by (cases a) (auto simp: move_construct_from_def referent_def move_construct_at_def
      split: option.splits)

text \<open>A call that returned has grown the vector if it was full, read its argument in the
  heap \<open>h1\<close> that growth left, constructed the new element, and, for an element that was
  moved from, left that element in its moved-from state.\<close>

lemma push_call_returns:
  assumes "push_call T c v h = Returns (v', h')"
  obtains v1 h1 x hm where
    "(if m_Size v = m_Capacity v then grow T v h else Returns (v, h)) = Returns (v1, h1)"
    "referent (arg_of c) h1 = Some x"
    "construct_at (m_Data v1) (unat (m_Size v1)) x h1 = Some hm"
    "v' = v1\<lparr>m_Size := m_Size v1 + 1\<rparr>"
    "h' = hm \<or> (\<exists>p j. c = Push_rvalue (Element p j) \<and>
        assign_at (Some p) j (moved_from T x) hm = Some h')"
proof (cases c)
  case (Push_lvalue a)
  then obtain v1 h1 where g: "(if m_Size v = m_Capacity v then grow T v h else Returns (v, h)) = Returns (v1, h1)"
    and cf: "copy_construct_from (m_Data v1) (unat (m_Size v1)) a h1 = Some h'"
    and v': "v' = v1\<lparr>m_Size := m_Size v1 + 1\<rparr>"
    using assms unfolding push_back_def
    by (auto simp: push_back_def split: outcome.splits option.splits prod.splits)
  obtain x where "referent a h1 = Some x" "construct_at (m_Data v1) (unat (m_Size v1)) x h1 = Some h'"
    using copy_construct_from_Some [OF cf] by blast
  then show ?thesis using that [of v1 h1 x h'] g v' Push_lvalue by simp
next
  case (Push_rvalue a)
  then obtain v1 h1 where g: "(if m_Size v = m_Capacity v then grow T v h else Returns (v, h)) = Returns (v1, h1)"
    and mf: "move_construct_from T (m_Data v1) (unat (m_Size v1)) a h1 = Some h'"
    and v': "v' = v1\<lparr>m_Size := m_Size v1 + 1\<rparr>"
    using assms
    by (auto simp: push_back_rvalue_def split: outcome.splits option.splits prod.splits)
  obtain x hm where "referent a h1 = Some x" "construct_at (m_Data v1) (unat (m_Size v1)) x h1 = Some hm"
    "h' = hm \<or> (\<exists>p j. a = Element p j \<and> assign_at (Some p) j (moved_from T x) hm = Some h')"
    using move_construct_from_Some [OF mf] by blast
  then show ?thesis using that [of v1 h1 x hm] g v' Push_rvalue by auto
qed

lemma push_call_step:
  assumes le: "m_Size v \<le> m_Capacity v" and pb: "push_call T c v h = Returns (v', h')"
  shows "unat (m_Size v') = Suc (unat (m_Size v))" "m_Size v' = m_Size v + 1"
    "m_Size v' \<le> m_Capacity v'" "m_Data v' \<noteq> None"
    "m_Size v < m_Size v'"
    "m_Capacity v' = (if m_Size v = m_Capacity v
        then (if m_Capacity v > 0 then m_Capacity v * 2 else initialCapacity) else m_Capacity v)"
proof -
  obtain v1 h1 x hm where g: "(if m_Size v = m_Capacity v then grow T v h else Returns (v, h)) = Returns (v1, h1)"
    and c: "construct_at (m_Data v1) (unat (m_Size v1)) x h1 = Some hm"
    and v': "v' = v1\<lparr>m_Size := m_Size v1 + 1\<rparr>"
    using pb by (rule push_call_returns)
  obtain a where a: "m_Data v1 = Some a" using c by (cases "m_Data v1") (auto simp: construct_at_null)
  have sz: "m_Size v1 = m_Size v"
    using g by (auto split: if_splits dest: grow_room(2))
  have cap: "m_Capacity v1 = (if m_Size v = m_Capacity v
        then (if m_Capacity v > 0 then m_Capacity v * 2 else initialCapacity) else m_Capacity v)"
    using g by (auto split: if_splits dest: grow_room(3))
  have lt: "m_Size v1 < m_Capacity v1"
  proof (cases "m_Size v = m_Capacity v")
    case True
    then have gr: "grow T v h = Returns (v1, h1)" using g by simp
    have "room h1 a \<le> unat (m_Capacity v1)" using grow_room(1) [OF gr] a by auto
    moreover have "unat (m_Size v1) < room h1 a" using c a by (auto dest: construct_at_bound)
    ultimately show ?thesis by (simp add: word_less_nat_alt)
  next
    case False
    then show ?thesis using g le by auto
  qed
  show u: "unat (m_Size v') = Suc (unat (m_Size v))" using unat_size_succ(1) [OF lt] v' sz by simp
  show "m_Size v' = m_Size v + 1" using v' sz by simp
  show "m_Size v' \<le> m_Capacity v'" using unat_size_succ(2) [OF lt] v' by simp
  show "m_Data v' \<noteq> None" using a v' by simp
  show "m_Size v < m_Size v'" using u by (simp add: word_less_nat_alt)
  show "m_Capacity v' = (if m_Size v = m_Capacity v
        then (if m_Capacity v > 0 then m_Capacity v * 2 else initialCapacity) else m_Capacity v)"
    using cap v' by simp
qed

lemma construct_at_frame:
  "construct_at p i x h = Some h' \<Longrightarrow> p \<noteq> Some q \<Longrightarrow> blocks h' q = blocks h q"
  by (auto simp: construct_at_def split: option.splits if_splits)

lemma construct_at_fields:
  "construct_at p i x h = Some h' \<Longrightarrow>
     next_addr h' = next_addr h \<and> avail h' = avail h \<and> released h' = released h"
  by (auto simp: construct_at_def split: option.splits if_splits)

lemma destroy_at_frame:
  "destroy_at p i h = Some h' \<Longrightarrow> p \<noteq> Some q \<Longrightarrow> blocks h' q = blocks h q"
  by (auto simp: destroy_at_def split: option.splits if_splits)

lemma destroy_at_fields:
  "destroy_at p i h = Some h' \<Longrightarrow>
     next_addr h' = next_addr h \<and> avail h' = avail h \<and> released h' = released h"
  by (auto simp: destroy_at_def split: option.splits if_splits)

lemma assign_at_frame:
  "assign_at p i x h = Some h' \<Longrightarrow> p \<noteq> Some q \<Longrightarrow> blocks h' q = blocks h q"
  by (auto simp: assign_at_def split: option.splits dest: construct_at_frame)

lemma assign_at_fields:
  "assign_at p i x h = Some h' \<Longrightarrow>
     next_addr h' = next_addr h \<and> avail h' = avail h \<and> released h' = released h"
  by (auto simp: assign_at_def split: option.splits dest: construct_at_fields)

lemma copy_construct_at_frame:
  "copy_construct_at p i s j h = Some h' \<Longrightarrow> p \<noteq> Some q \<Longrightarrow> blocks h' q = blocks h q"
  by (auto simp: copy_construct_at_def split: option.splits dest: construct_at_frame)

lemma copy_construct_at_fields:
  "copy_construct_at p i s j h = Some h' \<Longrightarrow>
     next_addr h' = next_addr h \<and> avail h' = avail h \<and> released h' = released h"
  by (auto simp: copy_construct_at_def split: option.splits dest: construct_at_fields)

lemma move_construct_at_frame:
  assumes "move_construct_at T p i s j h = Some h'" "p \<noteq> Some q" "s \<noteq> Some q"
  shows "blocks h' q = blocks h q"
proof -
  obtain y h1 where c: "construct_at p i y h = Some h1"
    and a: "assign_at s j (moved_from T y) h1 = Some h'"
    using assms(1) by (auto simp: move_construct_at_def split: option.splits)
  show ?thesis
    using construct_at_frame [OF c assms(2)] assign_at_frame [OF a assms(3)] by simp
qed

lemma move_construct_at_fields:
  assumes "move_construct_at T p i s j h = Some h'"
  shows "next_addr h' = next_addr h \<and> avail h' = avail h \<and> released h' = released h"
proof -
  obtain y h1 where c: "construct_at p i y h = Some h1"
    and a: "assign_at s j (moved_from T y) h1 = Some h'"
    using assms(1) by (auto simp: move_construct_at_def split: option.splits)
  show ?thesis
    using construct_at_fields [OF c] assign_at_fields [OF a] by simp
qed

lemma nuke_loop_frame:
  "nuke_loop p i n h = Some h' \<Longrightarrow>
     (p \<noteq> Some q \<longrightarrow> blocks h' q = blocks h q) \<and>
     next_addr h' = next_addr h \<and> avail h' = avail h \<and> released h' = released h"
proof (induction p i n h rule: nuke_loop.induct)
  case (1 p i n h)
  show ?case
  proof (cases "i < n")
    case True
    then obtain h1 where d: "destroy_at p i h = Some h1" and l: "nuke_loop p (Suc i) n h1 = Some h'"
      using "1.prems" by (subst (asm) nuke_loop.simps) (auto split: option.splits)
    show ?thesis
      using "1.IH" [OF True d l] destroy_at_frame [OF d] destroy_at_fields [OF d] by simp
  next
    case False
    then show ?thesis using "1.prems" by (subst (asm) nuke_loop.simps) simp
  qed
qed

lemma copy_loop_frame:
  "copy_loop dst src i n h = Some h' \<Longrightarrow>
     (dst \<noteq> Some q \<longrightarrow> blocks h' q = blocks h q) \<and>
     next_addr h' = next_addr h \<and> avail h' = avail h \<and> released h' = released h"
proof (induction dst src i n h rule: copy_loop.induct)
  case (1 dst src i n h)
  show ?case
  proof (cases "i < n")
    case True
    then obtain h1 where d: "copy_construct_at dst i src i h = Some h1"
      and l: "copy_loop dst src (Suc i) n h1 = Some h'"
      using "1.prems" by (subst (asm) copy_loop.simps) (auto split: option.splits)
    show ?thesis
      using "1.IH" [OF True d l] copy_construct_at_frame [OF d] copy_construct_at_fields [OF d]
      by simp
  next
    case False
    then show ?thesis using "1.prems" by (subst (asm) copy_loop.simps) simp
  qed
qed

lemma move_loop_frame:
  "move_loop T dst src i n h = Some h' \<Longrightarrow>
     (dst \<noteq> Some q \<and> src \<noteq> Some q \<longrightarrow> blocks h' q = blocks h q) \<and>
     next_addr h' = next_addr h \<and> avail h' = avail h \<and> released h' = released h"
proof (induction T dst src i n h rule: move_loop.induct)
  case (1 T dst src i n h)
  show ?case
  proof (cases "i < n")
    case True
    then obtain h1 where d: "move_construct_at T dst i src i h = Some h1"
      and l: "move_loop T dst src (Suc i) n h1 = Some h'"
      using "1.prems" by (subst (asm) move_loop.simps) (auto split: option.splits)
    show ?thesis
      using "1.IH" [OF True d l] move_construct_at_frame [OF d] move_construct_at_fields [OF d]
      by simp
  next
    case False
    then show ?thesis using "1.prems" by (subst (asm) move_loop.simps) simp
  qed
qed

lemma deallocate_frame:
  "deallocate T p n h = Some h' \<Longrightarrow> p \<noteq> Some q \<Longrightarrow> blocks h' q = blocks h q"
  by (auto simp: deallocate_def split: option.splits)

lemma deallocate_next: "deallocate T p n h = Some h' \<Longrightarrow> next_addr h' = next_addr h"
  by (auto simp: deallocate_def split: option.splits)

lemma allocate_frame:
  "allocate T n h = Returns (p, h') \<Longrightarrow> q < next_addr h \<Longrightarrow> blocks h' q = blocks h q"
  by (auto simp: allocate_def Let_def split: if_splits)

lemma allocate_next:
  "allocate T n h = Returns (p, h') \<Longrightarrow> p = Some (next_addr h) \<and> next_addr h' = Suc (next_addr h)"
  by (auto simp: allocate_def Let_def split: if_splits)

lemma grow_frame:
  assumes g: "grow T v h = Returns (v', h')" and q: "q < next_addr h" "m_Data v \<noteq> Some q"
  shows "blocks h' q = blocks h q" "next_addr h \<le> next_addr h'" "m_Data v' \<noteq> Some q"
proof -
  let ?nc = "if m_Capacity v > 0 then m_Capacity v * 2 else initialCapacity"
  obtain p h1 h2 h3 where al: "allocate T ?nc h = Returns (p, h1)"
    and lp: "(if nothrow_move T then move_loop T p (m_Data v) 0 (unat (m_Size v)) h1
              else copy_loop p (m_Data v) 0 (unat (m_Size v)) h1) = Some h2"
    and nk: "nuke v h2 = Some h3"
    and de: "deallocate T (m_Data v) (m_Capacity v) h3 = Some h'"
    and v': "v' = v\<lparr>m_Data := p, m_Capacity := ?nc\<rparr>"
    using g unfolding grow_def Let_def
    by (auto split: outcome.splits option.splits prod.splits)
  have p: "p = Some (next_addr h)" and n1: "next_addr h1 = Suc (next_addr h)"
    using allocate_next [OF al] by auto
  have pq: "p \<noteq> Some q" using p q(1) by simp
  have f1: "blocks h1 q = blocks h q" using al q(1) by (rule allocate_frame)
  have f2: "blocks h2 q = blocks h1 q" and n2: "next_addr h2 = next_addr h1"
    using lp pq q(2) by (auto split: if_splits dest: move_loop_frame copy_loop_frame)
  have f3: "blocks h3 q = blocks h2 q" and n3: "next_addr h3 = next_addr h2"
    using nk q(2) by (auto simp: nuke_def dest: nuke_loop_frame)
  have f4: "blocks h' q = blocks h3 q" using de q(2) by (rule deallocate_frame)
  show "blocks h' q = blocks h q" using f1 f2 f3 f4 by simp
  show "next_addr h \<le> next_addr h'" using n1 n2 n3 deallocate_next [OF de] by simp
  show "m_Data v' \<noteq> Some q" using v' pq by simp
qed

lemma push_call_frame:
  assumes pb: "push_call T c v h = Returns (v', h')" and q: "q < next_addr h" "m_Data v \<noteq> Some q"
    and nm: "\<And>j. c \<noteq> Push_rvalue (Element q j)"
  shows "blocks h' q = blocks h q" "next_addr h \<le> next_addr h'" "m_Data v' \<noteq> Some q"
proof -
  obtain v1 h1 x hm where g: "(if m_Size v = m_Capacity v then grow T v h else Returns (v, h)) = Returns (v1, h1)"
    and c: "construct_at (m_Data v1) (unat (m_Size v1)) x h1 = Some hm"
    and v': "v' = v1\<lparr>m_Size := m_Size v1 + 1\<rparr>"
    and fin: "h' = hm \<or> (\<exists>p j. c = Push_rvalue (Element p j) \<and>
        assign_at (Some p) j (moved_from T x) hm = Some h')"
    using pb by (rule push_call_returns)
  have f1: "blocks h1 q = blocks h q \<and> next_addr h \<le> next_addr h1 \<and> m_Data v1 \<noteq> Some q"
    using g q by (auto split: if_splits dest: grow_frame)
  have f2: "blocks hm q = blocks h1 q" "next_addr hm = next_addr h1"
    using f1 construct_at_frame [OF c] construct_at_fields [OF c] by simp_all
  have f3: "blocks h' q = blocks hm q \<and> next_addr h' = next_addr hm"
    using fin nm by (auto dest: assign_at_frame assign_at_fields)
  show "blocks h' q = blocks h q" using f1 f2 f3 by simp
  show "next_addr h \<le> next_addr h'" using f1 f2 f3 by simp
  show "m_Data v' \<noteq> Some q" using f1 v' by simp
qed

lemma push_back_frame:
  assumes "push_back T a v h = Returns (v', h')" "q < next_addr h" "m_Data v \<noteq> Some q"
  shows "blocks h' q = blocks h q"
  using push_call_frame(1) [of T "Push_lvalue a" v h v' h' q] assms by simp

lemma push_back_rvalue_object_frame:
  assumes "push_back_rvalue T (Object x) v h = Returns (v', h')" "q < next_addr h"
    "m_Data v \<noteq> Some q"
  shows "blocks h' q = blocks h q"
  using push_call_frame(1) [of T "Push_rvalue (Object x)" v h v' h' q] assms by simp

lemma pop_back_frame:
  "pop_back v h = Returns (v', h') \<Longrightarrow> m_Data v \<noteq> Some q \<Longrightarrow> blocks h' q = blocks h q"
  by (auto simp: pop_back_def Let_def split: if_splits option.splits dest: destroy_at_frame)

lemma clear_frame:
  "clear v h = Returns (v', h') \<Longrightarrow> m_Data v \<noteq> Some q \<Longrightarrow> blocks h' q = blocks h q"
  by (auto simp: clear_def nuke_def split: option.splits dest: nuke_loop_frame)

lemma subscript_assign_frame:
  "subscript_assign i x v h = Returns (v', h') \<Longrightarrow> m_Data v \<noteq> Some q \<Longrightarrow> blocks h' q = blocks h q"
  by (auto simp: subscript_assign_def split: if_splits option.splits dest: assign_at_frame)

lemma destructor_frame:
  assumes "destructor T v h = Some h'" "m_Data v \<noteq> Some q"
  shows "blocks h' q = blocks h q"
proof -
  obtain h1 where nk: "nuke v h = Some h1"
    and de: "(if m_Data v \<noteq> None then deallocate T (m_Data v) (m_Capacity v) h1 else Some h1) = Some h'"
    using assms(1) by (auto simp: destructor_def split: option.splits)
  have "blocks h1 q = blocks h q"
    using nk assms(2) by (auto simp: nuke_def dest: nuke_loop_frame)
  moreover have "blocks h' q = blocks h1 q"
    using de assms(2) by (auto split: if_splits dest: deallocate_frame)
  ultimately show ?thesis by simp
qed

lemma mutate_frame:
  assumes "mutate T m v h = Returns (v', h')" "q < next_addr h" "m_Data v \<noteq> Some q"
  shows "blocks h' q = blocks h q"
proof (cases m)
  case (Push_back a)
  then show ?thesis using assms by (auto dest: push_back_frame)
next
  case (Push_back_rvalue x)
  then show ?thesis using assms by (auto dest: push_back_rvalue_object_frame)
next
  case Pop_back
  then show ?thesis using assms by (auto dest: pop_back_frame)
next
  case Clear
  then show ?thesis using assms by (auto dest: clear_frame)
next
  case (Assign i x)
  then show ?thesis using assms by (auto dest: subscript_assign_frame)
qed

lemma subscript_cong:
  "(\<And>p. m_Data v = Some p \<Longrightarrow> blocks h2 p = blocks h1 p) \<Longrightarrow> i < m_Size v \<Longrightarrow>
     subscript v h2 i = subscript v h1 i"
  by (cases "m_Data v") (auto simp: subscript_def read_at_def)

lemma capacities_returns:
  assumes "push_back_all T [ca, cb, cc, cd, ce] FastVector_default h = Returns (v', h')"
  shows "capacities T [ca, cb, cc, cd, ce] FastVector_default h = [0, 4, 4, 4, 4, 8]"
proof -
  let ?v0 = "FastVector_default"
  obtain v1 h1 v2 h2 v3 h3 v4 h4 where
    p1: "push_call T ca ?v0 h = Returns (v1, h1)" and
    p2: "push_call T cb v1 h1 = Returns (v2, h2)" and
    p3: "push_call T cc v2 h2 = Returns (v3, h3)" and
    p4: "push_call T cd v3 h3 = Returns (v4, h4)" and
    p5: "push_call T ce v4 h4 = Returns (v', h')"
    using assms by (auto split: outcome.splits prod.splits)
  have l0: "m_Size ?v0 \<le> m_Capacity ?v0" by (simp add: FastVector_default_def)
  note s1 = push_call_step [OF l0 p1]
  note s2 = push_call_step [OF s1(3) p2]
  note s3 = push_call_step [OF s2(3) p3]
  note s4 = push_call_step [OF s3(3) p4]
  note s5 = push_call_step [OF s4(3) p5]
  have z1: "m_Size v1 = 1" "m_Capacity v1 = 4"
    using s1(2,6) by (simp_all add: FastVector_default_def initialCapacity_def)
  have z2: "m_Size v2 = 2" "m_Capacity v2 = 4" using s2(2,6) z1 by simp_all
  have z3: "m_Size v3 = 3" "m_Capacity v3 = 4" using s3(2,6) z2 by simp_all
  have z4: "m_Size v4 = 4" "m_Capacity v4 = 4" using s4(2,6) z3 by simp_all
  have z5: "m_Capacity v' = 8" using s5(6) z4 by simp
  show ?thesis
    using p1 p2 p3 p4 p5 z1 z2 z3 z4 z5 by (simp add: FastVector_default_def)
qed



lemma read_at_blocks:
  "blocks h' a = blocks h a \<Longrightarrow> read_at (Some a) k h' = read_at (Some a) k h"
  by (simp add: read_at_def)















lemma push_call_doubles:
  assumes eq: "m_Size v = m_Capacity v" and pb: "push_call T c v h = Returns (v', h')"
  shows "unat (m_Capacity v') = (if m_Capacity v = 0 then 4 else 2 * unat (m_Capacity v))"
proof (cases "m_Capacity v = 0")
  case True
  have "m_Size v \<le> m_Capacity v" using eq by simp
  from push_call_step(6) [OF this pb] show ?thesis
    using True eq by (simp add: initialCapacity_def)
next
  case False
  have le: "m_Size v \<le> m_Capacity v" using eq by simp
  note st = push_call_step [OF le pb]
  have c: "m_Capacity v' = m_Capacity v * 2" using st(6) eq False by (simp add: word_gt_0)
  have "Suc (unat (m_Capacity v)) \<le> unat (m_Capacity v')"
    using st(1,3) eq by (simp add: word_le_nat_alt)
  then have gt: "unat (m_Capacity v) < unat (m_Capacity v * 2)" using c by simp
  have m: "unat (m_Capacity v * 2) = (unat (m_Capacity v) * 2) mod 2 ^ 64"
    by (simp add: unat_word_ariths)
  have b: "unat (m_Capacity v) < 2 ^ 64" using unsigned_less [of "m_Capacity v"] by simp
  have "unat (m_Capacity v) * 2 < 2 ^ 64"
  proof (rule ccontr)
    assume "\<not> unat (m_Capacity v) * 2 < 2 ^ 64"
    then have ge: "2 ^ 64 \<le> unat (m_Capacity v) * 2" by simp
    have "(unat (m_Capacity v) * 2) mod 2 ^ 64 = unat (m_Capacity v) * 2 - 2 ^ 64"
      using ge b by (simp add: mod_if)
    then show False using gt m b by simp
  qed
  then have "unat (m_Capacity v * 2) = unat (m_Capacity v) * 2" using m by simp
  then show ?thesis using c False by simp
qed

section \<open>Reading, copying, removing, moving on a represented vector\<close>

lemma subscript_represents:
  assumes "represents T v h xs" "i < m_Size v"
  shows "subscript v h i = Returns (xs ! unat i)"
proof -
  have n: "unat (m_Size v) = length xs" and le: "m_Size v \<le> m_Capacity v"
    using assms(1) by (auto simp: represents_def)
  have i: "unat i < length xs" using assms(2) n by (simp add: word_less_nat_alt)
  have "m_Capacity v \<noteq> 0" using assms(2) le by auto
  then obtain p where p: "m_Data v = Some p"
    using assms(1) by (cases "m_Data v") (auto simp: represents_def)
  obtain b where b: "blocks h p = Some b"
    and len: "length (blk_slots b) = unat (m_Capacity v)"
    and tk: "take (length xs) (blk_slots b) = map Some xs"
    using assms(1) p by (auto simp: represents_def split: option.splits)
  have "unat i < length (blk_slots b)" using i n le len by (simp add: word_le_nat_alt)
  moreover have "blk_slots b ! unat i = Some (xs ! unat i)"
    using tk _ i by (rule nth_prefix) simp
  ultimately show ?thesis using assms(2) p b by (simp add: subscript_def read_at_def)
qed

lemma copy_construct_represents:
  fixes T :: "'a elem_type"
  assumes rep: "represents T src h xs" and s: "sizeof T \<noteq> 0"
    and fits: "unat (m_Capacity src) * unat (sizeof T) \<le> avail h"
  shows "\<exists>h'. copy_construct T src h =
             Returns (\<lparr>m_Data = Some (next_addr h), m_Size = m_Size src, m_Capacity = m_Capacity src\<rparr>, h')
           \<and> represents T \<lparr>m_Data = Some (next_addr h), m_Size = m_Size src, m_Capacity = m_Capacity src\<rparr> h' xs
           \<and> (\<forall>q. q < next_addr h \<longrightarrow> blocks h' q = blocks h q)
           \<and> next_addr h' = Suc (next_addr h)"
proof -
  let ?a = "next_addr h"
  let ?c = "m_Capacity src"
  let ?n = "unat (m_Size src)"
  have n: "?n = length xs" and le: "m_Size src \<le> ?c"
    using rep by (auto simp: represents_def)
  have nle: "length xs \<le> unat ?c" using le n by (simp add: word_le_nat_alt)
  have nw: "unat ?c * unat (sizeof T) < 2 ^ 64"
    using rep by (cases "m_Data src") (auto simp: represents_def split: option.splits)
  let ?bn = "\<lparr>blk_bytes = ?c * sizeof T, blk_align = alignof T,
               blk_slots = replicate (unat ?c) (None :: 'a option)\<rparr>"
  let ?h1 = "h\<lparr>blocks := (blocks h)(?a \<mapsto> ?bn), next_addr := Suc ?a,
               avail := avail h - unat ?c * unat (sizeof T)\<rparr>"
  have al: "allocate T ?c h = Returns (Some ?a, ?h1)"
    using fits nw s by (rule allocate_fits)
  let ?h2 = "?h1\<lparr>blocks := (blocks ?h1)(?a \<mapsto> ?bn\<lparr>blk_slots := map Some xs @ replicate (unat ?c - length xs) None\<rparr>)\<rparr>"
  have lp: "copy_loop (Some ?a) (m_Data src) 0 ?n ?h1 = Some ?h2"
  proof (cases "m_Data src")
    case None
    then have "?c = 0" using rep by (simp add: represents_def)
    then have "xs = []" "m_Size src = 0" using nle le by auto
    then show ?thesis by (simp add: copy_loop.simps fun_upd_idem)
  next
    case (Some p)
    obtain b where b: "blocks h p = Some b" and pa: "p < ?a"
      and len: "length (blk_slots b) = unat ?c"
      and tk: "take (length xs) (blk_slots b) = map Some xs"
      using rep Some by (auto simp: represents_def split: option.splits)
    have live: "\<forall>k. 0 \<le> k \<and> k < ?n \<longrightarrow> blk_slots b ! k \<noteq> None"
      using tk n by (auto simp: nth_prefix)
    have b1: "blocks ?h1 p = Some b" "blocks ?h1 ?a = Some ?bn" "p \<noteq> ?a"
      using b pa by auto
    have sl: "upd_range 0 ?n (\<lambda>k. blk_slots b ! k) (blk_slots ?bn) = map Some xs @ replicate (unat ?c - length xs) None"
      using tk n nle len by (simp add: upd_range_prefix)
    have "copy_loop (Some ?a) (Some p) 0 ?n ?h1 =
       Some (?h1\<lparr>blocks := (blocks ?h1)(?a \<mapsto> ?bn\<lparr>blk_slots := upd_range 0 ?n (\<lambda>k. blk_slots b ! k) (blk_slots ?bn)\<rparr>)\<rparr>)"
      using b1 nle len live n by (intro copy_loop_live) auto
    then show ?thesis unfolding Some sl .
  qed
  show ?thesis
    using al lp nle n le nw by (auto simp: copy_construct_def represents_def)
qed

lemma pop_back_represents:
  assumes rep: "represents T v h xs" and nz: "m_Size v \<noteq> 0"
  shows "\<exists>h'. pop_back v h = Returns (v\<lparr>m_Size := m_Size v - 1\<rparr>, h')
           \<and> represents T (v\<lparr>m_Size := m_Size v - 1\<rparr>) h' (butlast xs)
           \<and> read_at (m_Data v) (unat (m_Size v - 1)) h' = None
           \<and> unat (m_Size v - 1) = unat (m_Size v) - 1"
proof -
  have n: "unat (m_Size v) = length xs" and le: "m_Size v \<le> m_Capacity v"
    using rep by (auto simp: represents_def)
  have "m_Capacity v \<noteq> 0" using nz le by auto
  then obtain p where p: "m_Data v = Some p"
    using rep by (cases "m_Data v") (auto simp: represents_def)
  obtain b where b: "blocks h p = Some b" and pa: "p < next_addr h"
    and bb: "blk_bytes b = m_Capacity v * sizeof T" "blk_align b = alignof T"
    and nw: "unat (m_Capacity v) * unat (sizeof T) < 2 ^ 64"
    and len: "length (blk_slots b) = unat (m_Capacity v)"
    and tk: "take (length xs) (blk_slots b) = map Some xs"
    using rep p by (auto simp: represents_def split: option.splits)
  have u: "unat (m_Size v - 1) = length xs - 1" using nz n by (simp add: unat_minus_one)
  have pos: "0 < length xs" using nz n by (simp add: unat_gt_0 [symmetric])
  have nle: "length xs \<le> length (blk_slots b)" using le n len by (simp add: word_le_nat_alt)
  have live: "blk_slots b ! (length xs - 1) \<noteq> None"
    using tk _ _ by (rule live_prefix) (use pos in auto)
  have lt: "length xs - 1 < unat (m_Capacity v)" using pos nle len by linarith
  have le': "m_Size v - 1 \<le> m_Capacity v"
    unfolding word_le_nat_alt u using lt by simp
  have "take (length xs - 1) (blk_slots b) = take (length xs - 1) (take (length xs) (blk_slots b))"
    by simp
  also have "\<dots> = map Some (butlast xs)" unfolding tk by (simp add: butlast_conv_take take_map)
  finally have tk': "take (length xs - 1) (blk_slots b) = map Some (butlast xs)" .
  show ?thesis
    using p b pa bb nw len nz u pos nle live le' tk' n lt
    by (simp add: pop_back_def Let_def destroy_at_def represents_def read_at_def)
qed



section \<open>The invariants on the fields\<close>

lemma state_inv_push_call:
  "state_inv v \<Longrightarrow> push_call T c v h = Returns (v', h') \<Longrightarrow> state_inv v'"
  using push_call_step(3,4) [of v T c h v' h'] by (simp add: state_inv_def)

lemma state_inv_pop_back:
  assumes "state_inv v" "pop_back v h = Returns (v', h')"
  shows "state_inv v'"
proof -
  have nz: "m_Size v \<noteq> 0" and v': "v' = v\<lparr>m_Size := m_Size v - 1\<rparr>"
    using assms(2) by (auto simp: pop_back_def Let_def split: if_splits option.splits)
  have "unat (m_Size v - 1) = unat (m_Size v) - 1" using nz by (simp add: unat_minus_one)
  moreover have "unat (m_Size v) \<le> unat (m_Capacity v)"
    using assms(1) by (simp add: state_inv_def word_le_nat_alt)
  ultimately have "m_Size v - 1 \<le> m_Capacity v" unfolding word_le_nat_alt by linarith
  then show ?thesis using assms(1) v' by (simp add: state_inv_def)
qed

lemma state_inv_clear: "state_inv v \<Longrightarrow> clear v h = Returns (v', h') \<Longrightarrow> state_inv v'"
  by (auto simp: clear_def split: option.splits)

lemma state_inv_subscript_assign:
  "state_inv v \<Longrightarrow> subscript_assign i x v h = Returns (v', h') \<Longrightarrow> state_inv v'"
  by (auto simp: subscript_assign_def split: option.splits if_splits)

lemma state_inv_copy_construct:
  assumes "state_inv other" "copy_construct T other h = Returns (v', h')"
  shows "state_inv v'"
proof -
  obtain p h1 where al: "allocate T (m_Capacity other) h = Returns (p, h1)"
    and v': "v' = \<lparr>m_Data = p, m_Size = m_Size other, m_Capacity = m_Capacity other\<rparr>"
    using assms(2) by (auto simp: copy_construct_def split: outcome.splits option.splits)
  have "p \<noteq> None" using allocate_next [OF al] by simp
  then show ?thesis using assms(1) v' by (simp add: state_inv_def)
qed

lemma state_inv_move_construct:
  "state_inv other \<Longrightarrow> move_construct other = (v', other') \<Longrightarrow> state_inv v' \<and> state_inv other'"
  by (auto simp: move_construct_def state_inv_def)

lemma state_inv_move_assign:
  assumes "\<forall>i a. objects w i = Some a \<longrightarrow> state_inv a" "move_assign T this other w = Returns w'"
  shows "\<forall>i a. objects w' i = Some a \<longrightarrow> state_inv a"
proof (cases "this = other")
  case True
  then show ?thesis using assms by (auto simp: move_assign_def split: option.splits)
next
  case False
  obtain a b h2 where a: "objects w this = Some a" and b: "objects w other = Some b"
    and w': "w' = w\<lparr>objects := (objects w)
                                  (this \<mapsto> a\<lparr>m_Data := m_Data b, m_Size := m_Size b,
                                              m_Capacity := m_Capacity b\<rparr>,
                                   other \<mapsto> b\<lparr>m_Data := None, m_Size := 0, m_Capacity := 0\<rparr>),
                                mem := h2\<rparr>"
    using assms(2) False by (auto simp: move_assign_def split: option.splits if_splits)
  have "state_inv b" using assms(1) b by blast
  then show ?thesis using assms(1) w' by (auto simp: state_inv_def)
qed

section \<open>Concrete runs\<close>

lemma replicate_4: "replicate 4 x = [x, x, x, x]"
  by (simp add: numeral_eq_Suc)

lemma replicate_8: "replicate 8 x = [x, x, x, x, x, x, x, x]"
  by (simp add: numeral_eq_Suc)

text \<open>\<^verbatim>\<open>push_back(7)\<close> on an empty vector gives \<open>one_element\<close>.\<close>

lemma push_one:
  "push_back int_T (Object 7) FastVector_default (fresh_heap 4096) =
     Returns (one_element, one_block [Some 7, None, None, None])"
  by (simp add: push_back_def grow_def allocate_def int_T_def fresh_heap_def
      FastVector_default_def initialCapacity_def move_loop.simps nuke_def nuke_loop.simps
      deallocate_def construct_at_def Let_def one_block_def one_element_def replicate_4)

lemma represents_one: "represents int_T one_element (one_block [Some 7, None, None, None]) [7]"
  by (simp add: represents_def one_element_def one_block_def int_T_def)

lemma push_second:
  "push_back int_T (Object 8) one_element (one_block [Some 7, None, None, None]) =
     Returns (one_element\<lparr>m_Size := 2\<rparr>, one_block [Some 7, Some 8, None, None])"
  by (simp add: push_back_def construct_at_def one_block_def one_element_def)



lemma pop_one:
  "pop_back one_element (one_block [Some 7, None, None, None]) =
     Returns (one_element\<lparr>m_Size := 0\<rparr>, one_block [None, None, None, None])"
  by (simp add: pop_back_def destroy_at_def one_block_def one_element_def Let_def)

lemma assign_one:
  "subscript_assign 0 9 one_element (one_block [Some 7, None, None, None]) =
     Returns (one_element, one_block [Some 9, None, None, None])"
  by (simp add: subscript_assign_def assign_at_def read_at_def construct_at_def one_block_def
      one_element_def)

lemma copy_one:
  "copy_construct int_T one_element (one_block [Some 7, None, None, None]) =
     Returns (second_element, two_blocks [Some 7, None, None, None] [Some 7, None, None, None])"
  by (simp add: copy_construct_def allocate_def copy_loop.simps copy_construct_at_def read_at_def
      construct_at_def one_block_def one_element_def second_element_def two_blocks_def int_T_def
      Let_def replicate_4)

lemma assign_copy:
  "mutate int_T (Assign 0 9) second_element
       (two_blocks [Some 7, None, None, None] [Some 7, None, None, None]) =
     Returns (second_element, two_blocks [Some 7, None, None, None] [Some 9, None, None, None])"
  by (simp add: subscript_assign_def assign_at_def read_at_def construct_at_def two_blocks_def
      second_element_def)

lemma grow_full:
  "grow int_T \<lparr>m_Data = Some 1, m_Size = 4, m_Capacity = 4\<rparr>
       (one_block [Some 1, Some 2, Some 3, Some 4]) =
     Returns (\<lparr>m_Data = Some 2, m_Size = 4, m_Capacity = 8\<rparr>,
       \<lparr>blocks = (\<lambda>_. None)(2 \<mapsto> \<lparr>blk_bytes = 32, blk_align = 4,
            blk_slots = [Some 1, Some 2, Some 3, Some 4, None, None, None, None]\<rparr>),
        next_addr = 3, avail = 4064, released = [(1, (16, 4), (16, 4))]\<rparr>)"
  by (simp add: grow_def allocate_def move_loop.simps move_construct_at_def read_at_def
      construct_at_def assign_at_def nuke_def nuke_loop.simps destroy_at_def deallocate_def
      one_block_def int_T_def Let_def replicate_8)

lemma push_full:
  "push_back int_T (Object 5) four_elements (one_block [Some 1, Some 2, Some 3, Some 4]) =
     Returns (\<lparr>m_Data = Some 2, m_Size = 5, m_Capacity = 8\<rparr>,
       \<lparr>blocks = (\<lambda>_. None)(2 \<mapsto> \<lparr>blk_bytes = 32, blk_align = 4,
            blk_slots = [Some 1, Some 2, Some 3, Some 4, Some 5, None, None, None]\<rparr>),
        next_addr = 3, avail = 4064, released = [(1, (16, 4), (16, 4))]\<rparr>)"
  using grow_full by (simp add: push_back_def four_elements_def construct_at_def)




lemma move_assign_two:
  "move_assign int_T 0 1 two_vectors =
     Returns \<lparr>objects = (\<lambda>_. None)(0 \<mapsto> second_element, 1 \<mapsto> FastVector_default),
       mem = \<lparr>blocks = (\<lambda>_. None)(2 \<mapsto> \<lparr>blk_bytes = 16, blk_align = 4,
                   blk_slots = [Some 9, None, None, None]\<rparr>),
              next_addr = 3, avail = 4080, released = [(1, (4, 4), (16, 4))]\<rparr>\<rparr>"
  by (simp add: move_assign_def two_vectors_def nuke_def nuke_loop.simps destroy_at_def
      two_blocks_def one_element_def second_element_def deallocate_def int_T_def
      FastVector_default_def)

section \<open>clear\<close>

text \<open>
  C1 (fails on the code). \<^verbatim>\<open>clear()\<close> is to destroy the live elements and leave
  \<open>size() == 0\<close> with capacity and storage kept. On a vector holding the single element 7
  it destroys the element and keeps capacity and storage, but \<open>m_Size\<close> is still 1, so that
  index 0 now names a destroyed element: \<^verbatim>\<open>nuke()\<close> never assigns \<open>m_Size\<close>, although its
  comment says it sets the size to 0.
\<close>

theorem clear_keeps_size:
  "clear one_element (one_block [Some 7, None, None, None]) =
     Returns (one_element, one_block [None, None, None, None])
   \<and> size_of_vector one_element = 1
   \<and> subscript one_element (one_block [None, None, None, None]) 0 = Undefined"
  by (simp add: clear_def nuke_def nuke_loop.simps destroy_at_def one_block_def
      one_element_def size_of_vector_def subscript_def read_at_def)

section \<open>push_back\<close>




section \<open>reserve\<close>

text \<open>
  C3 (fails on the code). \<^verbatim>\<open>reserve(8)\<close> on a vector of capacity 4 holding one element is
  to move that element into a block of 8 slots. The transfer loop subscripts \<open>m_Size\<close>,
  so there is nothing it could move: the call has no defined result.
\<close>

theorem reserve_undefined:
  "reserve int_T 8 one_element (one_block [Some 7, None, None, None]) = Undefined"
  by (simp add: reserve_def allocate_def reserve_loop_def int_T_def one_block_def
      one_element_def Let_def)

section \<open>Growth\<close>

text \<open>
  C4. A \<^verbatim>\<open>grow()\<close> that returns leaves the capacity at 4 if it was 0 and at twice its value
  otherwise, computed in \<^verbatim>\<open>size_t\<close>, and leaves the size as it was. Where an insertion
  of either overload triggers it (\<open>size = capacity\<close>) and returns, the doubling has not
  wrapped: the new capacity is 4 or exactly twice the old one. Five calls of \<^verbatim>\<open>push_back\<close>
  on an empty vector take the capacity through 0, 4, 4, 4, 4, 8: whenever the five calls
  return, and they return when their arguments are objects of the caller and the allocator
  has the bytes of 12 elements.
\<close>

theorem grow_doubles:
  "(grow T v h = Returns (v', h') \<longrightarrow>
      m_Capacity v' = (if m_Capacity v = 0 then 4 else m_Capacity v * 2) \<and> m_Size v' = m_Size v)
   \<and> (m_Size v = m_Capacity v \<and> push_back T r v h = Returns (va, ha) \<longrightarrow>
        unat (m_Capacity va) = (if m_Capacity v = 0 then 4 else 2 * unat (m_Capacity v)))
   \<and> (m_Size v = m_Capacity v \<and> push_back_rvalue T r v h = Returns (va, ha) \<longrightarrow>
        unat (m_Capacity va) = (if m_Capacity v = 0 then 4 else 2 * unat (m_Capacity v)))
   \<and> (push_back_all T [ca, cb, cc, cd, ce] FastVector_default h = Returns (vf, hf) \<longrightarrow>
        capacities T [ca, cb, cc, cd, ce] FastVector_default h = [0, 4, 4, 4, 4, 8])
   \<and> (sizeof T \<noteq> 0 \<and> 12 * unat (sizeof T) \<le> avail h \<and> 12 * unat (sizeof T) < 2 ^ 64 \<and>
       map arg_of [ca, cb, cc, cd, ce] = map Object [a, b, c, d, e] \<longrightarrow>
        capacities T [ca, cb, cc, cd, ce] FastVector_default h = [0, 4, 4, 4, 4, 8])"
proof -
  have g: "m_Capacity v' = (if m_Capacity v = 0 then 4 else m_Capacity v * 2) \<and> m_Size v' = m_Size v"
    if "grow T v h = Returns (v', h')"
    using grow_room(2,3) [OF that] by (simp add: initialCapacity_def word_gt_0)
  have c: "capacities T [ca, cb, cc, cd, ce] FastVector_default h = [0, 4, 4, 4, 4, 8]"
    if s: "sizeof T \<noteq> 0" and m: "12 * unat (sizeof T) \<le> avail h" "12 * unat (sizeof T) < 2 ^ 64"
      and o: "map arg_of [ca, cb, cc, cd, ce] = map Object [a, b, c, d, e]"
  proof -
    have "arg_of ca = Object a" "arg_of cb = Object b" "arg_of cc = Object c"
      "arg_of cd = Object d" "arg_of ce = Object e"
      using o by simp_all
    then obtain v' h' where
      "push_back_all T [ca, cb, cc, cd, ce] FastVector_default h = Returns (v', h')"
      using five_pushes_return [OF s m] by blast
    then show ?thesis by (rule capacities_returns)
  qed
  show ?thesis
    using g c push_call_doubles [of v T "Push_lvalue r" h va ha]
      push_call_doubles [of v T "Push_rvalue r" h va ha]
      capacities_returns [of T ca cb cc cd ce h vf hf]
    by simp
qed

theorem grow_doubles_witness:
  "grow int_T four_elements (one_block [Some 1, Some 2, Some 3, Some 4]) =
     Returns (\<lparr>m_Data = Some 2, m_Size = 4, m_Capacity = 8\<rparr>,
       \<lparr>blocks = (\<lambda>_. None)(2 \<mapsto> \<lparr>blk_bytes = 32, blk_align = 4,
            blk_slots = [Some 1, Some 2, Some 3, Some 4, None, None, None, None]\<rparr>),
        next_addr = 3, avail = 4064, released = [(1, (16, 4), (16, 4))]\<rparr>)
   \<and> m_Capacity \<lparr>m_Data = Some 2, m_Size = 4, m_Capacity = 8\<rparr> = m_Capacity four_elements * 2
   \<and> m_Size four_elements = m_Capacity four_elements
   \<and> push_back int_T (Object 5) four_elements (one_block [Some 1, Some 2, Some 3, Some 4]) =
     Returns (\<lparr>m_Data = Some 2, m_Size = 5, m_Capacity = 8\<rparr>,
       \<lparr>blocks = (\<lambda>_. None)(2 \<mapsto> \<lparr>blk_bytes = 32, blk_align = 4,
            blk_slots = [Some 1, Some 2, Some 3, Some 4, Some 5, None, None, None]\<rparr>),
        next_addr = 3, avail = 4064, released = [(1, (16, 4), (16, 4))]\<rparr>)
   \<and> push_back_rvalue int_T (Object 5) four_elements (one_block [Some 1, Some 2, Some 3, Some 4]) =
     Returns (\<lparr>m_Data = Some 2, m_Size = 5, m_Capacity = 8\<rparr>,
       \<lparr>blocks = (\<lambda>_. None)(2 \<mapsto> \<lparr>blk_bytes = 32, blk_align = 4,
            blk_slots = [Some 1, Some 2, Some 3, Some 4, Some 5, None, None, None]\<rparr>),
        next_addr = 3, avail = 4064, released = [(1, (16, 4), (16, 4))]\<rparr>)
   \<and> unat (m_Capacity \<lparr>m_Data = Some 2, m_Size = 5, m_Capacity = 8\<rparr>)
        = 2 * unat (m_Capacity four_elements)
   \<and> sizeof int_T \<noteq> 0
   \<and> 12 * unat (sizeof int_T) \<le> avail (fresh_heap 48 :: int heap)
   \<and> 12 * unat (sizeof int_T) < 2 ^ 64
   \<and> map arg_of [Push_lvalue (Object 1), Push_lvalue (Object 2), Push_lvalue (Object 3),
          Push_lvalue (Object 4), Push_lvalue (Object 5)] = map Object [1, 2, 3, 4, 5 :: int]
   \<and> (\<exists>vf hf. push_back_all int_T [Push_lvalue (Object 1), Push_lvalue (Object 2),
          Push_lvalue (Object 3), Push_lvalue (Object 4), Push_lvalue (Object 5)]
          FastVector_default (fresh_heap 48) = Returns (vf, hf))
   \<and> capacities int_T [Push_lvalue (Object 1), Push_lvalue (Object 2), Push_lvalue (Object 3),
          Push_lvalue (Object 4), Push_lvalue (Object 5)] FastVector_default (fresh_heap 48)
        = [0, 4, 4, 4, 4, 8]"
proof -
  have g: "grow int_T four_elements (one_block [Some 1, Some 2, Some 3, Some 4]) =
     Returns (\<lparr>m_Data = Some 2, m_Size = 4, m_Capacity = 8\<rparr>,
       \<lparr>blocks = (\<lambda>_. None)(2 \<mapsto> \<lparr>blk_bytes = 32, blk_align = 4,
            blk_slots = [Some 1, Some 2, Some 3, Some 4, None, None, None, None]\<rparr>),
        next_addr = 3, avail = 4064, released = [(1, (16, 4), (16, 4))]\<rparr>)"
    using grow_full by (simp add: four_elements_def)
  have hyp: "sizeof int_T \<noteq> 0" "12 * unat (sizeof int_T) \<le> avail (fresh_heap 48 :: int heap)"
    "12 * unat (sizeof int_T) < 2 ^ 64"
    by (simp_all add: int_T_def fresh_heap_def)
  have mo: "map arg_of [Push_lvalue (Object 1), Push_lvalue (Object 2), Push_lvalue (Object 3),
          Push_lvalue (Object 4), Push_lvalue (Object 5)] = map Object [1, 2, 3, 4, 5 :: int]"
    by simp
  have eq: "m_Size four_elements = m_Capacity four_elements" by (simp add: four_elements_def)
  have c: "capacities int_T [Push_lvalue (Object 1), Push_lvalue (Object 2), Push_lvalue (Object 3),
          Push_lvalue (Object 4), Push_lvalue (Object 5)] FastVector_default (fresh_heap 48)
        = [0, 4, 4, 4, 4, 8]"
    using grow_doubles [where T = int_T and h = "fresh_heap 48"
        and ca = "Push_lvalue (Object 1)" and cb = "Push_lvalue (Object 2)"
        and cc = "Push_lvalue (Object 3)" and cd = "Push_lvalue (Object 4)"
        and ce = "Push_lvalue (Object 5)" and a = 1 and b = 2 and c = 3 and d = 4 and e = 5]
      hyp mo by blast
  have r: "\<exists>vf hf. push_back_all int_T [Push_lvalue (Object 1), Push_lvalue (Object 2),
          Push_lvalue (Object 3), Push_lvalue (Object 4), Push_lvalue (Object 5)]
          FastVector_default (fresh_heap 48) = Returns (vf, hf)"
    by (rule five_pushes_return [OF hyp, where a = 1 and b = 2 and c = 3 and d = 4 and e = 5])
      simp_all
  have d: "m_Capacity \<lparr>m_Data = Some 2, m_Size = 4, m_Capacity = 8\<rparr> = m_Capacity four_elements * 2"
    using grow_doubles [where T = int_T and v = four_elements
        and h = "one_block [Some 1, Some 2, Some 3, Some 4]"
        and v' = "\<lparr>m_Data = Some 2, m_Size = 4, m_Capacity = 8\<rparr>"] g
    by (simp add: four_elements_def)
  have pr: "push_back_rvalue int_T (Object 5) four_elements (one_block [Some 1, Some 2, Some 3, Some 4]) =
     Returns (\<lparr>m_Data = Some 2, m_Size = 5, m_Capacity = 8\<rparr>,
       \<lparr>blocks = (\<lambda>_. None)(2 \<mapsto> \<lparr>blk_bytes = 32, blk_align = 4,
            blk_slots = [Some 1, Some 2, Some 3, Some 4, Some 5, None, None, None]\<rparr>),
        next_addr = 3, avail = 4064, released = [(1, (16, 4), (16, 4))]\<rparr>)"
    using push_full by (simp add: push_back_rvalue_object)
  have u: "unat (m_Capacity \<lparr>m_Data = Some 2, m_Size = 5, m_Capacity = 8\<rparr>)
        = 2 * unat (m_Capacity four_elements)"
    using grow_doubles [where T = int_T and v = four_elements
        and h = "one_block [Some 1, Some 2, Some 3, Some 4]" and r = "Object 5"
        and va = "\<lparr>m_Data = Some 2, m_Size = 5, m_Capacity = 8\<rparr>"] push_full eq
    by (simp add: four_elements_def)
  show ?thesis using g d eq push_full pr u hyp mo r c by blast
qed

section \<open>pop_back\<close>

text \<open>
  C5. \<^verbatim>\<open>pop_back()\<close> on a vector of size 0 throws \<^verbatim>\<open>std::out_of_range\<close> and leaves vector
  and heap as they were; it fails in no other way and in no other state. On a represented
  vector of size above 0 it returns: only \<open>m_Size\<close> changes among the fields, by exactly
  1, the last element is destroyed, and the elements below it are the ones before the call.
\<close>

theorem pop_back_checked:
  "(m_Size v = 0 \<longrightarrow> pop_back v h = Fails Out_of_range (v, h))
   \<and> (pop_back v h = Fails e s \<longrightarrow> m_Size v = 0 \<and> e = Out_of_range \<and> s = (v, h))
   \<and> (m_Size v \<noteq> 0 \<and> represents T v h xs \<longrightarrow>
        (\<exists>h'. pop_back v h = Returns (v\<lparr>m_Size := m_Size v - 1\<rparr>, h') \<and>
           unat (m_Size v - 1) = unat (m_Size v) - 1 \<and>
           read_at (m_Data v) (unat (m_Size v - 1)) h' = None \<and>
           (\<forall>i. i < m_Size v - 1 \<longrightarrow>
              subscript (v\<lparr>m_Size := m_Size v - 1\<rparr>) h' i = subscript v h i) \<and>
           represents T (v\<lparr>m_Size := m_Size v - 1\<rparr>) h' (butlast xs)))"
proof -
  have a: "pop_back v h = Fails Out_of_range (v, h)" if "m_Size v = 0"
    using that by (simp add: pop_back_def)
  have b: "m_Size v = 0 \<and> e = Out_of_range \<and> s = (v, h)" if "pop_back v h = Fails e s"
    using that by (auto simp: pop_back_def Let_def split: if_splits option.splits)
  have c: "\<exists>h'. pop_back v h = Returns (v\<lparr>m_Size := m_Size v - 1\<rparr>, h') \<and>
           unat (m_Size v - 1) = unat (m_Size v) - 1 \<and>
           read_at (m_Data v) (unat (m_Size v - 1)) h' = None \<and>
           (\<forall>i. i < m_Size v - 1 \<longrightarrow>
              subscript (v\<lparr>m_Size := m_Size v - 1\<rparr>) h' i = subscript v h i) \<and>
           represents T (v\<lparr>m_Size := m_Size v - 1\<rparr>) h' (butlast xs)"
    if nz: "m_Size v \<noteq> 0" and rep: "represents T v h xs"
  proof -
    let ?v = "v\<lparr>m_Size := m_Size v - 1\<rparr>"
    obtain h' where p: "pop_back v h = Returns (?v, h')"
      and r: "represents T ?v h' (butlast xs)"
      and d: "read_at (m_Data v) (unat (m_Size v - 1)) h' = None"
      and u: "unat (m_Size v - 1) = unat (m_Size v) - 1"
      using pop_back_represents [OF rep nz] by blast
    have n: "unat (m_Size v) = length xs" using rep by (simp add: represents_def)
    have "subscript ?v h' i = subscript v h i" if i: "i < m_Size v - 1" for i
    proof -
      have i1: "i < m_Size ?v" using i by simp
      have i2: "i < m_Size v" using i u by (simp add: word_less_nat_alt)
      have "unat i < length (butlast xs)" using i u n by (simp add: word_less_nat_alt)
      then have "butlast xs ! unat i = xs ! unat i" by (rule nth_butlast)
      then show ?thesis
        using subscript_represents [OF r i1] subscript_represents [OF rep i2] by simp
    qed
    then show ?thesis using p r d u by blast
  qed
  show ?thesis using a b c by blast
qed

theorem pop_back_checked_witness:
  "m_Size FastVector_default = 0
   \<and> pop_back FastVector_default (fresh_heap 0 :: int heap) =
        Fails Out_of_range (FastVector_default, fresh_heap 0)
   \<and> m_Size one_element \<noteq> 0
   \<and> represents int_T one_element (one_block [Some 7, None, None, None]) [7]
   \<and> pop_back one_element (one_block [Some 7, None, None, None]) =
        Returns (one_element\<lparr>m_Size := 0\<rparr>, one_block [None, None, None, None])
   \<and> read_at (m_Data one_element) 0 (one_block [None, None, None, None]) = None
   \<and> represents int_T (one_element\<lparr>m_Size := 0\<rparr>) (one_block [None, None, None, None]) []"
proof -
  have z: "m_Size FastVector_default = 0" by (simp add: FastVector_default_def)
  have f: "pop_back FastVector_default (fresh_heap 0 :: int heap) =
        Fails Out_of_range (FastVector_default, fresh_heap 0)"
    using pop_back_checked [of FastVector_default "fresh_heap 0 :: int heap"] z by blast
  have nz: "m_Size one_element \<noteq> 0" by (simp add: one_element_def)
  obtain h' where p: "pop_back one_element (one_block [Some 7, None, None, None]) =
        Returns (one_element\<lparr>m_Size := m_Size one_element - 1\<rparr>, h')"
    and d: "read_at (m_Data one_element) (unat (m_Size one_element - 1)) h' = None"
    and r: "represents int_T (one_element\<lparr>m_Size := m_Size one_element - 1\<rparr>) h' (butlast [7])"
    using pop_back_checked [of one_element "one_block [Some 7, None, None, None]" _ _ int_T "[7]"]
      nz represents_one by blast
  have h': "h' = one_block [None, None, None, None]" using p pop_one by simp
  show ?thesis using z f nz represents_one pop_one d r unfolding h'
    by (simp add: one_element_def)
qed

section \<open>Moving\<close>



section \<open>Releasing storage\<close>

text \<open>
  C7 (fails on the code). Every release is to pass the (pointer, bytes, alignment) triple
  of the acquisition. Move assignment onto a vector of capacity 4 holding one \<^verbatim>\<open>int\<close>
  releases its 16-byte block with \<open>m_Size * sizeof(T) = 4\<close> bytes: it passes \<open>m_Size\<close>
  where the destructor and \<^verbatim>\<open>grow()\<close> pass \<open>m_Capacity\<close>.
\<close>

theorem move_assign_release_mismatch:
  "move_assign int_T 0 1
     \<lparr>objects = (\<lambda>_. None)(0 \<mapsto> one_element, 1 \<mapsto> FastVector_default),
      mem = one_block [Some 7, None, None, None]\<rparr> =
   Returns
     \<lparr>objects = (\<lambda>_. None)(0 \<mapsto> FastVector_default, 1 \<mapsto> FastVector_default),
      mem = \<lparr>blocks = (\<lambda>_. None), next_addr = 2, avail = 4096,
             released = [(1, (4, 4), (16, 4))]\<rparr>\<rparr>
   \<and> \<not> round_trips (1, (4, 4), (16, 4))"
  by (simp add: move_assign_def nuke_def nuke_loop.simps destroy_at_def one_block_def
      one_element_def deallocate_def int_T_def FastVector_default_def round_trips_def)

section \<open>Invariants after every operation\<close>

text \<open>
  C8 (as stated, fails). After every operation the storage pointer is to be non-null
  exactly when the capacity is positive. Copy-constructing from an empty vector allocates
  a block of zero bytes: the copy has storage and capacity 0.
\<close>

theorem copy_of_empty_counterexample:
  "\<not> (\<forall>v' h'. copy_construct int_T FastVector_default (fresh_heap 4096) = Returns (v', h') \<longrightarrow>
        (m_Data v' \<noteq> None \<longleftrightarrow> 0 < m_Capacity v'))"
  by (simp add: copy_construct_def allocate_def copy_loop.simps int_T_def fresh_heap_def
      FastVector_default_def)

text \<open>
  C8 (amended). A default-constructed vector has \<open>size \<le> capacity\<close> and storage whenever
  its capacity is positive, and every copy construction, move construction, move
  assignment, \<^verbatim>\<open>push_back\<close>, \<^verbatim>\<open>pop_back\<close>, \<^verbatim>\<open>clear\<close> and assignment through \<^verbatim>\<open>operator[]\<close> that
  returns keeps both for every vector involved.
\<close>

theorem invariants_preserved:
  "state_inv FastVector_default
   \<and> (state_inv v \<and> copy_construct T v h = Returns (v', h') \<longrightarrow> state_inv v')
   \<and> (state_inv v \<and> move_construct v = (vn, vo) \<longrightarrow> state_inv vn \<and> state_inv vo)
   \<and> (state_inv v \<and> push_back T r v h = Returns (v', h') \<longrightarrow> state_inv v')
   \<and> (state_inv v \<and> push_back_rvalue T r v h = Returns (v', h') \<longrightarrow> state_inv v')
   \<and> (state_inv v \<and> pop_back v h = Returns (v', h') \<longrightarrow> state_inv v')
   \<and> (state_inv v \<and> clear v h = Returns (v', h') \<longrightarrow> state_inv v')
   \<and> (state_inv v \<and> subscript_assign i x v h = Returns (v', h') \<longrightarrow> state_inv v')
   \<and> ((\<forall>j a. objects w j = Some a \<longrightarrow> state_inv a) \<and> move_assign T this other w = Returns w' \<longrightarrow>
        (\<forall>j a. objects w' j = Some a \<longrightarrow> state_inv a))"
proof -
  have "state_inv FastVector_default" by (simp add: state_inv_def FastVector_default_def)
  then show ?thesis
    using state_inv_copy_construct [of v T h v' h'] state_inv_move_construct [of v vn vo]
      state_inv_push_call [of v T "Push_lvalue r" h v' h']
      state_inv_push_call [of v T "Push_rvalue r" h v' h'] state_inv_pop_back [of v h v' h']
      state_inv_clear [of v h v' h'] state_inv_subscript_assign [of v i x h v' h']
      state_inv_move_assign [of w T this other w']
    by simp
qed

theorem invariants_preserved_witness:
  "state_inv FastVector_default \<and> state_inv one_element
   \<and> copy_construct int_T one_element (one_block [Some 7, None, None, None]) =
        Returns (second_element, two_blocks [Some 7, None, None, None] [Some 7, None, None, None])
   \<and> state_inv second_element
   \<and> move_construct one_element = (one_element, FastVector_default)
   \<and> push_back int_T (Object 8) one_element (one_block [Some 7, None, None, None]) =
        Returns (one_element\<lparr>m_Size := 2\<rparr>, one_block [Some 7, Some 8, None, None])
   \<and> push_back_rvalue int_T (Object 8) one_element (one_block [Some 7, None, None, None]) =
        Returns (one_element\<lparr>m_Size := 2\<rparr>, one_block [Some 7, Some 8, None, None])
   \<and> state_inv (one_element\<lparr>m_Size := 2\<rparr>)
   \<and> pop_back one_element (one_block [Some 7, None, None, None]) =
        Returns (one_element\<lparr>m_Size := 0\<rparr>, one_block [None, None, None, None])
   \<and> state_inv (one_element\<lparr>m_Size := 0\<rparr>)
   \<and> clear one_element (one_block [Some 7, None, None, None]) =
        Returns (one_element, one_block [None, None, None, None])
   \<and> subscript_assign 0 9 one_element (one_block [Some 7, None, None, None]) =
        Returns (one_element, one_block [Some 9, None, None, None])
   \<and> (\<exists>w'. move_assign int_T 0 1 two_vectors = Returns w'
         \<and> objects w' 0 = Some second_element \<and> objects w' 1 = Some FastVector_default
         \<and> (\<forall>j a. objects w' j = Some a \<longrightarrow> state_inv a))"
proof -
  let ?h = "one_block [Some 7, None, None, None]"
  have i1: "state_inv one_element" by (simp add: state_inv_def one_element_def)
  have pr: "push_back_rvalue int_T (Object 8) one_element ?h =
        Returns (one_element\<lparr>m_Size := 2\<rparr>, one_block [Some 7, Some 8, None, None])"
    using push_second by (simp add: push_back_rvalue_object)
  have cl: "clear one_element ?h = Returns (one_element, one_block [None, None, None, None])"
    by (simp add: clear_def nuke_def nuke_loop.simps destroy_at_def one_block_def one_element_def)
  have mc: "move_construct one_element = (one_element, FastVector_default)"
    by (simp add: move_construct_def one_element_def FastVector_default_def)
  note th = invariants_preserved [where T = int_T and v = one_element and h = ?h]
  have i0: "state_inv FastVector_default" using th by blast
  have i2: "state_inv second_element"
    using th [where v' = second_element] copy_one i1 by blast
  have i3: "state_inv (one_element\<lparr>m_Size := 2\<rparr>)"
    using th [where v' = "one_element\<lparr>m_Size := 2\<rparr>" and r = "Object 8"] push_second i1 by blast
  have i3': "state_inv (one_element\<lparr>m_Size := 2\<rparr>)"
    using th [where v' = "one_element\<lparr>m_Size := 2\<rparr>" and r = "Object 8"] pr i1 by blast
  have i4: "state_inv (one_element\<lparr>m_Size := 0\<rparr>)"
    using th [where v' = "one_element\<lparr>m_Size := 0\<rparr>"] pop_one i1 by blast
  have i6: "state_inv one_element \<and> state_inv FastVector_default"
    using th [where vn = one_element and vo = FastVector_default] mc i1 by blast
  have i7: "state_inv one_element"
    using th [where v' = one_element and h' = "one_block [None, None, None, None]"] cl i1 by blast
  have i8: "state_inv one_element"
    using th [where v' = one_element and h' = "one_block [Some 9, None, None, None]" and i = 0
        and x = 9] assign_one i1 by blast
  have all: "\<forall>j a. objects two_vectors j = Some a \<longrightarrow> state_inv a"
    using i1 i2 by (simp add: two_vectors_def)
  obtain w' where m: "move_assign int_T 0 1 two_vectors = Returns w'"
    and o: "objects w' 0 = Some second_element" "objects w' 1 = Some FastVector_default"
    using move_assign_two by simp
  have i5: "\<forall>j a. objects w' j = Some a \<longrightarrow> state_inv a"
    using th [where w = two_vectors and this = 0 and other = 1 and w' = w'] all m by blast
  show ?thesis
    using i0 i1 i2 i3 i4 i5 m o copy_one mc push_second pr pop_one cl assign_one by blast
qed

section \<open>Copying\<close>

text \<open>
  C9. Copy construction from a represented vector returns when the allocator has the
  bytes of the source's capacity. The copy has the size and the capacity of the source and
  the same element at every index below the size; its storage is a new block acquired for
  the source's capacity. The source, its block and its elements are unchanged. Whatever
  mutating call is then made on the copy, or when the copy is destroyed, the elements of
  the source stay as they are, and the other way round.
\<close>

theorem copy_construct_independent:
  "represents T src h xs \<and> sizeof T \<noteq> 0 \<and> unat (m_Capacity src) * unat (sizeof T) \<le> avail h \<longrightarrow>
     (\<exists>dst h' a b. copy_construct T src h = Returns (dst, h') \<and>
        size_of_vector dst = size_of_vector src \<and>
        (\<forall>i. i < m_Size src \<longrightarrow>
           subscript dst h' i = Returns (xs ! unat i) \<and> subscript src h i = Returns (xs ! unat i)) \<and>
        m_Capacity dst = m_Capacity src \<and> m_Data dst = Some a \<and> m_Data src \<noteq> Some a \<and>
        blocks h' a = Some b \<and> blk_bytes b = m_Capacity src * sizeof T \<and>
        length (blk_slots b) = unat (m_Capacity src) \<and>
        (\<forall>p. m_Data src = Some p \<longrightarrow> blocks h' p = blocks h p) \<and>
        (\<forall>i. i < m_Size src \<longrightarrow> subscript src h' i = subscript src h i) \<and>
        (\<forall>m dst2 h2. mutate T m dst h' = Returns (dst2, h2) \<longrightarrow>
           (\<forall>i. i < m_Size src \<longrightarrow> subscript src h2 i = subscript src h' i)) \<and>
        (\<forall>m src2 h2. mutate T m src h' = Returns (src2, h2) \<longrightarrow>
           (\<forall>i. i < m_Size dst \<longrightarrow> subscript dst h2 i = subscript dst h' i)) \<and>
        (\<forall>h2. destructor T dst h' = Some h2 \<longrightarrow>
           (\<forall>i. i < m_Size src \<longrightarrow> subscript src h2 i = subscript src h' i)) \<and>
        (\<forall>h2. destructor T src h' = Some h2 \<longrightarrow>
           (\<forall>i. i < m_Size dst \<longrightarrow> subscript dst h2 i = subscript dst h' i)))"
proof (intro impI, elim conjE)
  assume rep: "represents T src h xs" and s: "sizeof T \<noteq> 0"
    and fits: "unat (m_Capacity src) * unat (sizeof T) \<le> avail h"
  let ?a = "next_addr h"
  let ?dst = "\<lparr>m_Data = Some ?a, m_Size = m_Size src, m_Capacity = m_Capacity src\<rparr>"
  obtain h' where cc: "copy_construct T src h = Returns (?dst, h')"
    and rd: "represents T ?dst h' xs"
    and fr: "\<forall>q. q < ?a \<longrightarrow> blocks h' q = blocks h q"
    and nx: "next_addr h' = Suc ?a"
    using copy_construct_represents [OF rep s fits] by blast
  have below: "p < ?a" if "m_Data src = Some p" for p
    using rep that by (auto simp: represents_def)
  have ne: "m_Data src \<noteq> Some ?a" using below by auto
  obtain b where b: "blocks h' ?a = Some b" "blk_bytes b = m_Capacity src * sizeof T"
    "length (blk_slots b) = unat (m_Capacity src)"
    using rd by (auto simp: represents_def split: option.splits)
  have keep: "\<forall>p. m_Data src = Some p \<longrightarrow> blocks h' p = blocks h p"
    using fr below by auto
  have vals: "subscript ?dst h' i = Returns (xs ! unat i) \<and> subscript src h i = Returns (xs ! unat i)"
    if "i < m_Size src" for i
    using subscript_represents [OF rd, of i] subscript_represents [OF rep, of i] that by simp
  have same: "subscript src h' i = subscript src h i" if "i < m_Size src" for i
    using keep that by (intro subscript_cong) auto
  have m1: "subscript src h2 i = subscript src h' i"
    if mu: "mutate T m ?dst h' = Returns (dst2, h2)" and i: "i < m_Size src" for m dst2 h2 i
  proof (rule subscript_cong [OF _ i])
    fix p assume p: "m_Data src = Some p"
    have "p < next_addr h'" using below [OF p] nx by simp
    moreover have "m_Data ?dst \<noteq> Some p" using below [OF p] by simp
    ultimately show "blocks h2 p = blocks h' p" using mu by (intro mutate_frame)
  qed
  have m2: "subscript ?dst h2 i = subscript ?dst h' i"
    if mu: "mutate T m src h' = Returns (src2, h2)" and i: "i < m_Size ?dst" for m src2 h2 i
  proof (rule subscript_cong [OF _ i])
    fix p assume "m_Data ?dst = Some p"
    then have p: "p = ?a" by simp
    have "p < next_addr h'" using p nx by simp
    moreover have "m_Data src \<noteq> Some p" using ne p by simp
    ultimately show "blocks h2 p = blocks h' p" using mu by (intro mutate_frame)
  qed
  have d1: "subscript src h2 i = subscript src h' i"
    if de: "destructor T ?dst h' = Some h2" and i: "i < m_Size src" for h2 i
  proof (rule subscript_cong [OF _ i])
    fix p assume p: "m_Data src = Some p"
    have "m_Data ?dst \<noteq> Some p" using below [OF p] by simp
    then show "blocks h2 p = blocks h' p" using de by (intro destructor_frame)
  qed
  have d2: "subscript ?dst h2 i = subscript ?dst h' i"
    if de: "destructor T src h' = Some h2" and i: "i < m_Size ?dst" for h2 i
  proof (rule subscript_cong [OF _ i])
    fix p assume "m_Data ?dst = Some p"
    then have "m_Data src \<noteq> Some p" using ne by auto
    then show "blocks h2 p = blocks h' p" using de by (intro destructor_frame)
  qed
  show "\<exists>dst h' a b. copy_construct T src h = Returns (dst, h') \<and>
        size_of_vector dst = size_of_vector src \<and>
        (\<forall>i. i < m_Size src \<longrightarrow>
           subscript dst h' i = Returns (xs ! unat i) \<and> subscript src h i = Returns (xs ! unat i)) \<and>
        m_Capacity dst = m_Capacity src \<and> m_Data dst = Some a \<and> m_Data src \<noteq> Some a \<and>
        blocks h' a = Some b \<and> blk_bytes b = m_Capacity src * sizeof T \<and>
        length (blk_slots b) = unat (m_Capacity src) \<and>
        (\<forall>p. m_Data src = Some p \<longrightarrow> blocks h' p = blocks h p) \<and>
        (\<forall>i. i < m_Size src \<longrightarrow> subscript src h' i = subscript src h i) \<and>
        (\<forall>m dst2 h2. mutate T m dst h' = Returns (dst2, h2) \<longrightarrow>
           (\<forall>i. i < m_Size src \<longrightarrow> subscript src h2 i = subscript src h' i)) \<and>
        (\<forall>m src2 h2. mutate T m src h' = Returns (src2, h2) \<longrightarrow>
           (\<forall>i. i < m_Size dst \<longrightarrow> subscript dst h2 i = subscript dst h' i)) \<and>
        (\<forall>h2. destructor T dst h' = Some h2 \<longrightarrow>
           (\<forall>i. i < m_Size src \<longrightarrow> subscript src h2 i = subscript src h' i)) \<and>
        (\<forall>h2. destructor T src h' = Some h2 \<longrightarrow>
           (\<forall>i. i < m_Size dst \<longrightarrow> subscript dst h2 i = subscript dst h' i))"
    apply (rule exI [of _ ?dst], rule exI [of _ h'], rule exI [of _ ?a], rule exI [of _ b])
    using cc vals ne b keep same m1 m2 d1 d2
    apply (simp add: size_of_vector_def)
    done
qed

theorem copy_construct_independent_witness:
  "represents int_T one_element (one_block [Some 7, None, None, None]) [7]
   \<and> sizeof int_T \<noteq> 0
   \<and> unat (m_Capacity one_element) * unat (sizeof int_T) \<le> avail (one_block [Some 7, None, None, None])
   \<and> copy_construct int_T one_element (one_block [Some 7, None, None, None]) =
        Returns (second_element, two_blocks [Some 7, None, None, None] [Some 7, None, None, None])
   \<and> size_of_vector second_element = size_of_vector one_element
   \<and> m_Capacity second_element = m_Capacity one_element
   \<and> subscript second_element (two_blocks [Some 7, None, None, None] [Some 7, None, None, None]) 0
        = Returns 7
   \<and> mutate int_T (Assign 0 9) second_element
          (two_blocks [Some 7, None, None, None] [Some 7, None, None, None]) =
        Returns (second_element, two_blocks [Some 7, None, None, None] [Some 9, None, None, None])
   \<and> subscript one_element (two_blocks [Some 7, None, None, None] [Some 9, None, None, None]) 0
        = Returns 7"
proof -
  let ?h = "one_block [Some 7, None, None, None]"
  let ?h' = "two_blocks [Some 7, None, None, None] [Some 7, None, None, None]"
  let ?h2 = "two_blocks [Some 7, None, None, None] [Some 9, None, None, None]"
  have hyp: "represents int_T one_element ?h [7] \<and> sizeof int_T \<noteq> 0 \<and>
      unat (m_Capacity one_element) * unat (sizeof int_T) \<le> avail ?h"
    using represents_one by (simp add: int_T_def one_element_def one_block_def)
  have lt: "0 < m_Size one_element" by (simp add: one_element_def)
  obtain dst h' where c: "copy_construct int_T one_element ?h = Returns (dst, h')"
    and sz: "size_of_vector dst = size_of_vector one_element"
    and cp: "m_Capacity dst = m_Capacity one_element"
    and el: "\<forall>i. i < m_Size one_element \<longrightarrow>
           subscript dst h' i = Returns ([7] ! unat i) \<and> subscript one_element ?h i = Returns ([7] ! unat i)"
    and ind: "\<forall>m dst2 h2. mutate int_T m dst h' = Returns (dst2, h2) \<longrightarrow>
           (\<forall>i. i < m_Size one_element \<longrightarrow> subscript one_element h2 i = subscript one_element h' i)"
    and same: "\<forall>i. i < m_Size one_element \<longrightarrow> subscript one_element h' i = subscript one_element ?h i"
    using copy_construct_independent [of int_T one_element ?h "[7]"] hyp by blast
  have d: "dst = second_element" "h' = ?h'" using c copy_one by simp_all
  have e0: "subscript second_element ?h' 0 = Returns 7"
    using el lt unfolding d by fastforce
  have "subscript one_element ?h2 0 = subscript one_element ?h' 0"
    using ind assign_copy lt unfolding d by blast
  also have "\<dots> = subscript one_element ?h 0" using same lt unfolding d by blast
  also have "\<dots> = Returns 7" using el lt by fastforce
  finally have e1: "subscript one_element ?h2 0 = Returns 7" .
  show ?thesis using hyp copy_one sz cp e0 assign_copy e1 unfolding d by blast
qed

section \<open>Move assignment to itself\<close>

text \<open>
  C10. Move-assigning a vector to itself returns with the whole state as it was: the fields
  of the object, every block and every other object. The test \<^verbatim>\<open>this != &other\<close> skips the
  body.
\<close>

theorem move_assign_self:
  "objects w this = Some b \<Longrightarrow> move_assign T this this w = Returns w"
  by (simp add: move_assign_def)

theorem move_assign_self_witness:
  "objects \<lparr>objects = (\<lambda>_. None)(0 \<mapsto> one_element),
            mem = one_block [Some 7, None, None, None]\<rparr> 0 = Some one_element
   \<and> move_assign int_T 0 0
        \<lparr>objects = (\<lambda>_. None)(0 \<mapsto> one_element), mem = one_block [Some 7, None, None, None]\<rparr>
      = Returns \<lparr>objects = (\<lambda>_. None)(0 \<mapsto> one_element),
                 mem = one_block [Some 7, None, None, None]\<rparr>"
  using move_assign_self [of "\<lparr>objects = (\<lambda>_. None)(0 \<mapsto> one_element),
            mem = one_block [Some 7, None, None, None]\<rparr>" 0 one_element int_T]
  by simp

end
